theory Spec2Isabelle
  imports Main "HOL-Library.Word"
begin

section \<open>Data model of \<^verbatim>\<open>nfa.cpp\<close>\<close>

text \<open>
  A C++ \<^verbatim>\<open>char\<close> is a signed 8-bit value: it is an \<open>8 word\<close>, read with \<open>sint\<close> where
  the source compares by order. A \<^verbatim>\<open>long\<close> index is an \<open>int\<close>; no state sequence
  comes near \<open>2 ^ 63\<close> entries, so its wrap-around plays no role.
\<close>

type_synonym cchar = "8 word"

definition RULE_UNDEFINED :: cchar where
  "RULE_UNDEFINED = - 1"

definition RULE_EPSILON :: cchar where
  "RULE_EPSILON = - 2"

definition REF_UNDEFINED :: int where
  "REF_UNDEFINED = - 1"

text \<open>\<^verbatim>\<open>struct NFASubsetRef { long start, end; }\<close>; \<open>end\<close> is reserved, hence \<open>end'\<close>.\<close>

record NFASubsetRef =
  start :: int
  end' :: int

text \<open>\<^verbatim>\<open>struct NFAState { char rule; std::pair<long, long> refs; }\<close>\<close>

record NFAState =
  rule :: cchar
  refs :: "int \<times> int"

abbreviation first :: "NFAState \<Rightarrow> int" where
  "first s \<equiv> fst (refs s)"

abbreviation second :: "NFAState \<Rightarrow> int" where
  "second s \<equiv> snd (refs s)"

text \<open>\<^verbatim>\<open>class NFA\<close>: the overall fragment \<^verbatim>\<open>nfa\<close> and the state sequence \<^verbatim>\<open>vec\<close>.\<close>

record NFA =
  nfa :: NFASubsetRef
  vec :: "NFAState list"

text \<open>
  The only exception of the source is the string thrown by the closure computation.
  Indexing a \<^verbatim>\<open>std::vector\<close> out of range is undefined behaviour in C++; the model
  stops there with \<open>OutOfRange\<close> instead of reading an unspecified value.
\<close>

datatype error = EpsilonInfiniteLoop | OutOfRange

definition in_range :: "int \<Rightarrow> 'a list \<Rightarrow> bool" where
  "in_range i xs \<longleftrightarrow> 0 \<le> i \<and> i < int (length xs)"

text \<open>The default constructors \<^verbatim>\<open>NFASubsetRef()\<close>, \<^verbatim>\<open>NFAState()\<close> and \<^verbatim>\<open>NFA()\<close>.\<close>

definition NFASubsetRef_init :: NFASubsetRef where
  "NFASubsetRef_init = \<lparr>start = REF_UNDEFINED, end' = REF_UNDEFINED\<rparr>"

definition NFAState_init :: NFAState where
  "NFAState_init = \<lparr>rule = RULE_UNDEFINED, refs = (REF_UNDEFINED, REF_UNDEFINED)\<rparr>"

definition NFA_init :: NFA where
  "NFA_init = \<lparr>nfa = NFASubsetRef_init, vec = []\<rparr>"

text \<open>The three field writes \<^verbatim>\<open>vec[i].rule = r\<close>, \<^verbatim>\<open>vec[i].refs.first = x\<close>,
  \<^verbatim>\<open>vec[i].refs.second = x\<close>, for an index that the caller has checked.\<close>

definition set_rule :: "int \<Rightarrow> cchar \<Rightarrow> NFAState list \<Rightarrow> NFAState list" where
  "set_rule i r v = v[nat i := (v ! nat i)\<lparr>rule := r\<rparr>]"

definition set_first :: "int \<Rightarrow> int \<Rightarrow> NFAState list \<Rightarrow> NFAState list" where
  "set_first i x v = v[nat i := (v ! nat i)\<lparr>refs := (x, second (v ! nat i))\<rparr>]"

definition set_second :: "int \<Rightarrow> int \<Rightarrow> NFAState list \<Rightarrow> NFAState list" where
  "set_second i x v = v[nat i := (v ! nat i)\<lparr>refs := (first (v ! nat i), x)\<rparr>]"

section \<open>The fragment algebra\<close>

text \<open>
  Every operation is a method of the automaton: it takes the automaton and returns the
  fragment together with the updated automaton. \<^verbatim>\<open>ch\<close> and \<^verbatim>\<open>question\<close> only write to
  states they have just appended; the others write to \<^verbatim>\<open>vec[lv.end]\<close> for a
  caller-supplied index.
\<close>

definition ch :: "cchar \<Rightarrow> NFA \<Rightarrow> NFASubsetRef \<times> NFA" where
  "ch c a =
     (let r = \<lparr>start = int (length (vec a)), end' = int (length (vec a)) + 1\<rparr>;
          v = vec a @ [NFAState_init, NFAState_init];
          v = set_rule (start r) c v;
          v = set_first (start r) (end' r) v
      in (r, \<lparr>nfa = r, vec = v\<rparr>))"

definition link :: "NFASubsetRef \<Rightarrow> NFASubsetRef \<Rightarrow> NFA \<Rightarrow> error + NFASubsetRef \<times> NFA" where
  "link lv rv a =
     (let r = \<lparr>start = start lv, end' = end' rv\<rparr> in
      if \<not> in_range (end' lv) (vec a) then Inl OutOfRange
      else
        let v = set_rule (end' lv) RULE_EPSILON (vec a);
            v = set_first (end' lv) (start rv) v
        in Inr (r, \<lparr>nfa = r, vec = v\<rparr>))"

definition select :: "NFASubsetRef \<Rightarrow> NFASubsetRef \<Rightarrow> NFA \<Rightarrow> error + NFASubsetRef \<times> NFA" where
  "select lv rv a =
     (let r = \<lparr>start = int (length (vec a)), end' = int (length (vec a)) + 1\<rparr>;
          v = vec a @ [NFAState_init, NFAState_init];
          v = set_rule (start r) RULE_EPSILON v;
          v = set_first (start r) (start lv) v;
          v = set_second (start r) (start rv) v
      in
      if \<not> in_range (end' lv) v then Inl OutOfRange
      else
        let v = set_rule (end' lv) RULE_EPSILON v;
            v = set_first (end' lv) (end' r) v
        in
        if \<not> in_range (end' rv) v then Inl OutOfRange
        else
          let v = set_rule (end' rv) RULE_EPSILON v;
              v = set_first (end' rv) (end' r) v
          in Inr (r, \<lparr>nfa = r, vec = v\<rparr>))"

definition star :: "NFASubsetRef \<Rightarrow> NFA \<Rightarrow> error + NFASubsetRef \<times> NFA" where
  "star v0 a =
     (let r = \<lparr>start = int (length (vec a)), end' = int (length (vec a)) + 1\<rparr>;
          v = vec a @ [NFAState_init, NFAState_init];
          v = set_rule (start r) RULE_EPSILON v;
          v = set_first (start r) (start v0) v;
          v = set_second (start r) (end' r) v
      in
      if \<not> in_range (end' v0) v then Inl OutOfRange
      else
        let v = set_rule (end' v0) RULE_EPSILON v;
            v = set_first (end' v0) (start r) v
        in Inr (r, \<lparr>nfa = r, vec = v\<rparr>))"

definition question :: "NFASubsetRef \<Rightarrow> NFA \<Rightarrow> NFASubsetRef \<times> NFA" where
  "question v0 a =
     (let r = \<lparr>start = int (length (vec a)), end' = end' v0\<rparr>;
          v = vec a @ [NFAState_init];
          v = set_rule (start r) RULE_EPSILON v;
          v = set_first (start r) (start v0) v;
          v = set_second (start r) (end' v0) v
      in (r, \<lparr>nfa = r, vec = v\<rparr>))"

text \<open>
  \<^verbatim>\<open>for(char c = s + 1; c <= e; c++) ns = select(ns, ch(c));\<close>
  The argument \<^verbatim>\<open>ch(c)\<close> is evaluated before \<^verbatim>\<open>select\<close> runs. The counter is a
  \<^verbatim>\<open>char\<close>: for \<open>e = 127\<close> the test \<^verbatim>\<open>c <= e\<close> never fails and the loop does not end,
  so the loop is a partial function and \<open>None\<close> stands for not returning.
\<close>

partial_function (option) range_loop ::
  "cchar \<Rightarrow> cchar \<Rightarrow> NFASubsetRef \<Rightarrow> NFA \<Rightarrow> (error + NFASubsetRef \<times> NFA) option" where
  "range_loop c e ns a =
     (if sint c \<le> sint e then
        (case ch c a of (r, a1) \<Rightarrow>
           (case select ns r a1 of
              Inl er \<Rightarrow> Some (Inl er)
            | Inr (ns', a2) \<Rightarrow> range_loop (c + 1) e ns' a2))
      else Some (Inr (ns, a)))"

declare range_loop.simps [code]

definition range' :: "cchar \<Rightarrow> cchar \<Rightarrow> NFA \<Rightarrow> (error + NFASubsetRef \<times> NFA) option" where
  "range' s e a =
     (if sint s > sint e then Some (Inr (NFASubsetRef_init, a))
      else if s = e then Some (Inr (ch s a))
      else (case ch s a of (ns, a1) \<Rightarrow> range_loop (s + 1) e ns a1))"

text \<open>
  \<^verbatim>\<open>one_of(const char *list)\<close>: the argument is the sequence of bytes at \<^verbatim>\<open>list\<close>; the
  walk stops at the first \<^verbatim>\<open>'\0'\<close> (the end of the list stands for the terminator too).
\<close>

fun one_of_loop :: "cchar list \<Rightarrow> NFASubsetRef \<Rightarrow> NFA \<Rightarrow> error + NFASubsetRef \<times> NFA" where
  "one_of_loop [] ns a = Inr (ns, a)"
| "one_of_loop (p # ps) ns a =
     (if p = 0 then Inr (ns, a)
      else
        (case ch p a of (r, a1) \<Rightarrow>
           (case select ns r a1 of
              Inl er \<Rightarrow> Inl er
            | Inr (ns', a2) \<Rightarrow> one_of_loop ps ns' a2)))"

definition one_of :: "cchar list \<Rightarrow> NFA \<Rightarrow> error + NFASubsetRef \<times> NFA" where
  "one_of list a =
     (case list of
        [] \<Rightarrow> Inr (NFASubsetRef_init, a)
      | c # cs \<Rightarrow>
          if c = 0 then Inr (NFASubsetRef_init, a)
          else (case ch c a of (ns, a1) \<Rightarrow> one_of_loop cs ns a1))"

section \<open>Epsilon closures\<close>

text \<open>
  \<^verbatim>\<open>calculate_epsilon_closures(nss, ecs)\<close>. The state of the \<^verbatim>\<open>while\<close> loop is the
  vector \<^verbatim>\<open>flag\<close>, the closure table \<^verbatim>\<open>ecs\<close> and the stack (its top is the head of
  the list).
\<close>

text \<open>\<^verbatim>\<open>ecs[argi].insert(ecs[s].begin(), ecs[s].end())\<close>\<close>

definition insert_closure :: "int \<Rightarrow> int \<Rightarrow> int set list \<Rightarrow> error + int set list" where
  "insert_closure argi s ecs =
     (if in_range argi ecs \<and> in_range s ecs
      then Inr (ecs[nat argi := ecs ! nat argi \<union> ecs ! nat s])
      else Inl OutOfRange)"

text \<open>\<^verbatim>\<open>flag[argi] = true; ecs[argi].insert(argi); stack.pop();\<close>\<close>

definition finish :: "int \<Rightarrow> bool list \<Rightarrow> int set list \<Rightarrow> int list \<Rightarrow>
    error + bool list \<times> int set list \<times> int list" where
  "finish argi flag ecs stack =
     (if in_range argi flag \<and> in_range argi ecs
      then Inr (flag[nat argi := True], ecs[nat argi := insert argi (ecs ! nat argi)], tl stack)
      else Inl OutOfRange)"

text \<open>
  The block \<^verbatim>\<open>if(s != NFA::REF_UNDEFINED) { if(!flag[s]) { stack.push(s); continue; } else
  ecs[argi].insert(...); }\<close>, which the body runs for \<^verbatim>\<open>s1\<close> and then for \<^verbatim>\<open>s2\<close>.
  \<open>None\<close> says that \<open>s\<close> is to be pushed and the body left by \<^verbatim>\<open>continue\<close>.
\<close>

definition visit :: "int \<Rightarrow> int \<Rightarrow> bool list \<Rightarrow> int set list \<Rightarrow> error + int set list option" where
  "visit argi s flag ecs =
     (if s \<noteq> REF_UNDEFINED then
        if \<not> in_range s flag then Inl OutOfRange
        else if \<not> flag ! nat s then Inr None
        else (case insert_closure argi s ecs of Inl er \<Rightarrow> Inl er | Inr ecs' \<Rightarrow> Inr (Some ecs'))
      else Inr (Some ecs))"

text \<open>One pass through the body of the \<^verbatim>\<open>while\<close> loop, entered with a non-empty stack.\<close>

definition ec_body :: "NFAState list \<Rightarrow> bool list \<Rightarrow> int set list \<Rightarrow> int list \<Rightarrow>
    error + bool list \<times> int set list \<times> int list" where
  "ec_body nss flag ecs stack =
     (if length ecs < length stack then Inl EpsilonInfiniteLoop
      else
        let argi = hd stack in
        if \<not> in_range argi nss then Inl OutOfRange
        else if rule (nss ! nat argi) = RULE_EPSILON then
          let s1 = first (nss ! nat argi); s2 = second (nss ! nat argi) in
          (case visit argi s1 flag ecs of
             Inl er \<Rightarrow> Inl er
           | Inr None \<Rightarrow> Inr (flag, ecs, s1 # stack)
           | Inr (Some ecs1) \<Rightarrow>
               (case visit argi s2 flag ecs1 of
                  Inl er \<Rightarrow> Inl er
                | Inr None \<Rightarrow> Inr (flag, ecs1, s2 # stack)
                | Inr (Some ecs2) \<Rightarrow> finish argi flag ecs2 stack))
        else finish argi flag ecs stack)"

text \<open>
  The loop ends: a push keeps the flags and lengthens a stack that the guard bounds by
  \<open>length ecs\<close>; a pop either flags a state that was not flagged, or removes a flagged
  entry from the stack.
\<close>

definition unflagged :: "bool list \<Rightarrow> nat" where
  "unflagged flag = card {i. i < length flag \<and> \<not> flag ! i}"

definition flagged_on :: "bool list \<Rightarrow> int list \<Rightarrow> nat" where
  "flagged_on flag stack = length (filter (\<lambda>s. in_range s flag \<and> flag ! nat s) stack)"

function ec_while :: "NFAState list \<Rightarrow> bool list \<Rightarrow> int set list \<Rightarrow> int list \<Rightarrow>
    error + bool list \<times> int set list" where
  "ec_while nss flag ecs stack =
     (if stack = [] then Inr (flag, ecs)
      else
        (case ec_body nss flag ecs stack of
           Inl er \<Rightarrow> Inl er
         | Inr (flag', ecs', stack') \<Rightarrow> ec_while nss flag' ecs' stack'))"
  by pat_completeness auto

lemma unflagged_update:
  assumes "i < length flag" "\<not> flag ! i"
  shows "unflagged (flag[i := True]) < unflagged flag"
proof -
  have "{j. j < length (flag[i := True]) \<and> \<not> flag[i := True] ! j} =
        {j. j < length flag \<and> \<not> flag ! j} - {i}"
    using assms by (auto simp: nth_list_update)
  moreover have "i \<in> {j. j < length flag \<and> \<not> flag ! j}"
    using assms by simp
  moreover have "finite {j. j < length flag \<and> \<not> flag ! j}"
    by simp
  ultimately show ?thesis
    unfolding unflagged_def by (metis card_Diff1_less)
qed

lemma insert_closure_length:
  "insert_closure argi s ecs = Inr ecs' \<Longrightarrow> length ecs' = length ecs"
  by (auto simp: insert_closure_def split: if_splits)

lemma finish_decreases:
  assumes "stack \<noteq> []" "finish (hd stack) flag ecs stack = Inr (flag', ecs', stack')"
  shows "(unflagged flag' < unflagged flag \<or>
          (flag' = flag \<and> flagged_on flag stack' < flagged_on flag stack)) \<and>
         length ecs' = length ecs"
proof -
  obtain x xs where st: "stack = x # xs"
    using assms(1) by (cases stack) auto
  from assms(2) st have r: "in_range x flag" and f: "flag' = flag[nat x := True]"
    and s: "stack' = xs" and e: "length ecs' = length ecs"
    by (auto simp: finish_def split: if_splits)
  show ?thesis
  proof (cases "flag ! nat x")
    case True
    then have "flag' = flag"
      using f list_update_id[of flag "nat x"] by simp
    moreover have "flagged_on flag xs < flagged_on flag (x # xs)"
      using True r by (simp add: flagged_on_def)
    ultimately show ?thesis
      using s st e by simp
  next
    case False
    moreover have "nat x < length flag"
      using r by (auto simp: in_range_def)
    ultimately have "unflagged (flag[nat x := True]) < unflagged flag"
      by (rule unflagged_update[rotated])
    then show ?thesis
      using f e by simp
  qed
qed

lemma visit_None: "visit argi s flag ecs = Inr None \<Longrightarrow> \<not> flag ! nat s"
  by (auto simp: visit_def split: if_splits sum.splits)

lemma visit_length: "visit argi s flag ecs = Inr (Some ecs') \<Longrightarrow> length ecs' = length ecs"
  by (auto simp: visit_def split: if_splits sum.splits dest: insert_closure_length)

lemma ec_body_cases:
  assumes "ec_body nss flag ecs stack = Inr (flag', ecs', stack')"
  obtains
    (push) s where "stack' = s # stack" "flag' = flag" "length ecs' = length ecs"
      "\<not> flag ! nat s" "length stack \<le> length ecs"
  | (pop) ecs2 where "finish (hd stack) flag ecs2 stack = Inr (flag', ecs', stack')"
      "length ecs2 = length ecs"
  using assms
  by (auto simp: ec_body_def Let_def split: if_splits sum.splits option.splits
      dest!: visit_length visit_None)

lemma ec_body_decreases:
  assumes "stack \<noteq> []" "ec_body nss flag ecs stack = Inr (flag', ecs', stack')"
  shows "((flag', ecs', stack'), (flag, ecs, stack)) \<in>
     inv_image (less_than <*lex*> less_than <*lex*> less_than)
       (\<lambda>(flag, ecs, stack).
          (unflagged flag, flagged_on flag stack, Suc (length ecs) - length stack))"
  using assms(2)
proof (cases rule: ec_body_cases)
  case push
  then show ?thesis
    by (auto simp: flagged_on_def)
next
  case pop
  from finish_decreases[OF assms(1) pop(1)] pop(2) show ?thesis
    by auto
qed

termination ec_while
  apply (relation "inv_image (less_than <*lex*> less_than <*lex*> less_than)
       (\<lambda>(nss, flag, ecs, stack).
          (unflagged flag, flagged_on flag stack, Suc (length ecs) - length stack))")
   apply (intro wf_inv_image wf_lex_prod wf_less_than)
  using ec_body_decreases apply auto
  done

declare ec_while.simps [simp del]

text \<open>\<^verbatim>\<open>for(size_t i = 0; i < nss.size(); i++) { stack.push(i); while ... }\<close>\<close>

fun ec_for :: "NFAState list \<Rightarrow> nat list \<Rightarrow> bool list \<Rightarrow> int set list \<Rightarrow>
    error + bool list \<times> int set list" where
  "ec_for nss [] flag ecs = Inr (flag, ecs)"
| "ec_for nss (i # is) flag ecs =
     (case ec_while nss flag ecs [int i] of
        Inl er \<Rightarrow> Inl er
      | Inr (flag', ecs') \<Rightarrow> ec_for nss is flag' ecs')"

definition calculate_epsilon_closures ::
  "NFAState list \<Rightarrow> int set list \<Rightarrow> error + int set list" where
  "calculate_epsilon_closures nss ecs =
     (case ec_for nss [0..<length nss] (replicate (length nss) False) ecs of
        Inl er \<Rightarrow> Inl er
      | Inr (flag, ecs') \<Rightarrow> Inr ecs')"

section \<open>Subset construction\<close>

text \<open>\<^verbatim>\<open>struct DFARefRecord { long from; char rule; long to; }\<close>\<close>

record DFARefRecord =
  from' :: int
  rule' :: cchar
  to' :: int

text \<open>
  \<^verbatim>\<open>std::for_each\<close> over a sequence, with a body that may stop the whole computation.
\<close>

fun for_each :: "'a list \<Rightarrow> ('a \<Rightarrow> 's \<Rightarrow> error + 's) \<Rightarrow> 's \<Rightarrow> error + 's" where
  "for_each [] f s = Inr s"
| "for_each (x # xs) f s = (case f x s of Inl er \<Rightarrow> Inl er | Inr s' \<Rightarrow> for_each xs f s')"

text \<open>
  \<^verbatim>\<open>std::map<char, std::set<long>> ch_closures\<close> is an association list with one entry
  per key; \<^verbatim>\<open>ch_closures[k].insert(first, last)\<close> creates the empty entry when the key is
  new. The map is walked in the order of its keys, which are signed characters.
\<close>

fun insert_at :: "'k \<Rightarrow> int set \<Rightarrow> ('k \<times> int set) list \<Rightarrow> ('k \<times> int set) list" where
  "insert_at k s [] = [(k, {} \<union> s)]"
| "insert_at k s ((k', v) # m) =
     (if k = k' then (k', v \<union> s) # m else (k', v) # insert_at k s m)"

definition in_key_order :: "(cchar \<times> 'a) list \<Rightarrow> (cchar \<times> 'a) list" where
  "in_key_order m = sort_key (\<lambda>kv. sint (fst kv)) m"

text \<open>The first lambda of \<^verbatim>\<open>nfa2dfa\<close>, run for every member \<^verbatim>\<open>si\<close> of the DFA state.\<close>

definition collect_closure ::
  "NFAState list \<Rightarrow> int set list \<Rightarrow> int \<Rightarrow> (cchar \<times> int set) list \<Rightarrow>
     error + (cchar \<times> int set) list" where
  "collect_closure vs epsilon_closures si ch_closures =
     (if \<not> in_range si vs then Inl OutOfRange
      else if rule (vs ! nat si) = RULE_EPSILON \<or> rule (vs ! nat si) = RULE_UNDEFINED
        then Inr ch_closures
      else if \<not> in_range (first (vs ! nat si)) epsilon_closures then Inl OutOfRange
      else Inr (insert_at (rule (vs ! nat si))
                  (epsilon_closures ! nat (first (vs ! nat si))) ch_closures))"

text \<open>\<^verbatim>\<open>std::find\<close> followed by \<^verbatim>\<open>std::distance\<close>: the position of the first equal element.\<close>

fun find_pos :: "'a \<Rightarrow> 'a list \<Rightarrow> nat option" where
  "find_pos x [] = None"
| "find_pos x (y # ys) = (if y = x then Some 0 else map_option Suc (find_pos x ys))"

text \<open>The second lambda of \<^verbatim>\<open>nfa2dfa\<close>, run for every entry \<^verbatim>\<open>cs\<close> of the map.\<close>

definition index_closure ::
  "nat \<Rightarrow> cchar \<times> int set \<Rightarrow> int set list \<times> DFARefRecord list \<Rightarrow>
     int set list \<times> DFARefRecord list" where
  "index_closure dsi cs st =
     (case st of (dfa_states, dfa_ref_records) \<Rightarrow>
        (case find_pos (snd cs) dfa_states of
           Some i \<Rightarrow>
             (dfa_states,
              dfa_ref_records @ [\<lparr>from' = int dsi, rule' = fst cs, to' = int i\<rparr>])
         | None \<Rightarrow>
             (dfa_states @ [snd cs],
              dfa_ref_records @
                [\<lparr>from' = int dsi, rule' = fst cs, to' = int (length dfa_states)\<rparr>])))"

text \<open>The body of \<^verbatim>\<open>for(size_t dsi = 0; dsi < dfa_states.size(); dsi++)\<close>.\<close>

definition dfa_body ::
  "NFAState list \<Rightarrow> int set list \<Rightarrow> nat \<Rightarrow> int set list \<Rightarrow> DFARefRecord list \<Rightarrow>
     error + int set list \<times> DFARefRecord list" where
  "dfa_body vs epsilon_closures dsi dfa_states dfa_ref_records =
     (case for_each (sorted_list_of_set (dfa_states ! dsi))
             (collect_closure vs epsilon_closures) [] of
        Inl er \<Rightarrow> Inl er
      | Inr ch_closures \<Rightarrow>
          Inr (fold (index_closure dsi) (in_key_order ch_closures)
                 (dfa_states, dfa_ref_records)))"

text \<open>
  Every set in the map is a union of closures, and a state is appended only when its set
  is not yet in the table. So the table grows at most by the finitely many unions of
  closures, and the index catches up when it stops growing.
\<close>

definition closure_unions :: "int set list \<Rightarrow> int set set" where
  "closure_unions ecs = (\<lambda>A. \<Union> A) ` Pow (set ecs)"

function dfa_loop ::
  "NFAState list \<Rightarrow> int set list \<Rightarrow> nat \<Rightarrow> int set list \<Rightarrow> DFARefRecord list \<Rightarrow>
     error + int set list \<times> DFARefRecord list" where
  "dfa_loop vs epsilon_closures dsi dfa_states dfa_ref_records =
     (if dsi < length dfa_states then
        (case dfa_body vs epsilon_closures dsi dfa_states dfa_ref_records of
           Inl er \<Rightarrow> Inl er
         | Inr (dfa_states', dfa_ref_records') \<Rightarrow>
             dfa_loop vs epsilon_closures (dsi + 1) dfa_states' dfa_ref_records')
      else Inr (dfa_states, dfa_ref_records))"
  by pat_completeness auto

lemma for_each_invariant:
  assumes "for_each xs f s = Inr s'" "P s"
    and "\<And>x s s'. x \<in> set xs \<Longrightarrow> P s \<Longrightarrow> f x s = Inr s' \<Longrightarrow> P s'"
  shows "P s'"
  using assms
proof (induction xs arbitrary: s)
  case Nil
  then show ?case by simp
next
  case (Cons x xs)
  from Cons.prems(1) obtain s1 where s1: "f x s = Inr s1" "for_each xs f s1 = Inr s'"
    by (auto split: sum.splits)
  have "P s1" using Cons.prems(3)[OF _ Cons.prems(2) s1(1)] by simp
  then show ?case using Cons.IH[OF s1(2)] Cons.prems(3) by auto
qed

lemma finite_closure_unions: "finite (closure_unions ecs)"
  by (simp add: closure_unions_def)

lemma closure_unions_nth: "in_range j ecs \<Longrightarrow> ecs ! nat j \<in> closure_unions ecs"
  unfolding closure_unions_def in_range_def
  by (rule image_eqI[where x = "{ecs ! nat j}"]) auto

lemma closure_unions_Un:
  assumes "A \<in> closure_unions ecs" "B \<in> closure_unions ecs" shows "A \<union> B \<in> closure_unions ecs"
proof -
  from assms obtain X Y where "X \<subseteq> set ecs" "A = \<Union>X" "Y \<subseteq> set ecs" "B = \<Union>Y"
    by (auto simp: closure_unions_def)
  then have "X \<union> Y \<in> Pow (set ecs)" "A \<union> B = \<Union>(X \<union> Y)" by auto
  then show ?thesis unfolding closure_unions_def by blast
qed

lemma closure_unions_empty: "{} \<in> closure_unions ecs"
  unfolding closure_unions_def by (rule image_eqI[where x = "{}"]) auto

lemma insert_at_values:
  "snd ` set m \<subseteq> U \<Longrightarrow> {} \<union> s \<in> U \<Longrightarrow> (\<And>v. v \<in> U \<Longrightarrow> v \<union> s \<in> U) \<Longrightarrow> snd ` set (insert_at k s m) \<subseteq> U"
  by (induction k s m rule: insert_at.induct) auto

lemma collect_closure_values:
  assumes "collect_closure vs ecs si m = Inr m'" "snd ` set m \<subseteq> closure_unions ecs"
  shows "snd ` set m' \<subseteq> closure_unions ecs"
proof (cases "m' = m")
  case True
  then show ?thesis using assms by simp
next
  case False
  with assms(1) have r: "in_range (first (vs ! nat si)) ecs"
    and m': "m' = insert_at (rule (vs ! nat si)) (ecs ! nat (first (vs ! nat si))) m"
    by (auto simp: collect_closure_def split: if_splits)
  show ?thesis unfolding m'
    by (rule insert_at_values[OF assms(2)])
      (use closure_unions_nth[OF r] closure_unions_Un in auto)
qed

lemma find_pos_None: "find_pos x ys = None \<longleftrightarrow> x \<notin> set ys"
  by (induction ys) auto

lemma find_pos_Some: "find_pos x ys = Some i \<Longrightarrow> i < length ys \<and> ys ! i = x \<and> x \<notin> set (take i ys)"
proof (induction ys arbitrary: i)
  case Nil
  then show ?case by simp
next
  case (Cons y ys)
  then show ?case by (cases i) (auto split: if_splits)
qed

lemma index_closure_states:
  assumes "index_closure dsi cs (ds, recs) = (ds', recs')"
  shows "ds' = ds \<or> (ds' = ds @ [snd cs] \<and> snd cs \<notin> set ds)"
  using assms by (auto simp: index_closure_def find_pos_None split: option.splits)

lemma fold_index_closure_states:
  assumes "fold (index_closure dsi) L (ds, recs) = (ds', recs')"
  shows "\<exists>new. ds' = ds @ new \<and> set new \<subseteq> snd ` set L - set ds"
  using assms
proof (induction L arbitrary: ds recs)
  case Nil
  then show ?case by simp
next
  case (Cons cs L)
  obtain ds1 recs1 where s1: "index_closure dsi cs (ds, recs) = (ds1, recs1)"
    by (cases "index_closure dsi cs (ds, recs)")
  with Cons.prems have "fold (index_closure dsi) L (ds1, recs1) = (ds', recs')" by simp
  from Cons.IH[OF this] obtain new where new: "ds' = ds1 @ new" "set new \<subseteq> snd ` set L - set ds1"
    by blast
  from index_closure_states[OF s1] show ?case
  proof
    assume "ds1 = ds"
    with new show ?thesis by auto
  next
    assume "ds1 = ds @ [snd cs] \<and> snd cs \<notin> set ds"
    with new have "ds' = ds @ (snd cs # new)" "set (snd cs # new) \<subseteq> snd ` set (cs # L) - set ds"
      by auto
    then show ?thesis by blast
  qed
qed

lemma dfa_body_states:
  assumes "dfa_body vs ecs dsi ds recs = Inr (ds', recs')"
  shows "\<exists>new. ds' = ds @ new \<and> set new \<subseteq> closure_unions ecs - set ds"
proof -
  from assms obtain chc where chc: "for_each (sorted_list_of_set (ds ! dsi)) (collect_closure vs ecs) [] = Inr chc"
    and f: "fold (index_closure dsi) (in_key_order chc) (ds, recs) = (ds', recs')"
    by (auto simp: dfa_body_def split: sum.splits)
  have "snd ` set chc \<subseteq> closure_unions ecs"
    by (rule for_each_invariant[OF chc, where P = "\<lambda>m. snd ` set m \<subseteq> closure_unions ecs"])
      (simp, erule (1) collect_closure_values)
  moreover from fold_index_closure_states[OF f] obtain new where
    "ds' = ds @ new" "set new \<subseteq> snd ` set (in_key_order chc) - set ds" by blast
  ultimately show ?thesis by (auto simp: in_key_order_def)
qed

lemma dfa_body_decreases:
  assumes "dsi < length ds" "dfa_body vs ecs dsi ds recs = Inr (ds', recs')"
  shows "((ds', Suc dsi), (ds, dsi)) \<in>
    inv_image (less_than <*lex*> less_than) (\<lambda>(ds, dsi). (card (closure_unions ecs - set ds), length ds - dsi))"
proof -
  from dfa_body_states[OF assms(2)] obtain new where
    new: "ds' = ds @ new" "set new \<subseteq> closure_unions ecs - set ds" by blast
  show ?thesis
  proof (cases new)
    case Nil
    then show ?thesis using new assms(1) by auto
  next
    case (Cons x xs)
    with new have "x \<in> closure_unions ecs - set ds" "x \<notin> closure_unions ecs - set ds'" by auto
    moreover have "closure_unions ecs - set ds' \<subseteq> closure_unions ecs - set ds" using new by auto
    ultimately have "closure_unions ecs - set ds' \<subset> closure_unions ecs - set ds" by blast
    then have "card (closure_unions ecs - set ds') < card (closure_unions ecs - set ds)"
      by (intro psubset_card_mono) (auto simp: finite_closure_unions)
    then show ?thesis by simp
  qed
qed

termination dfa_loop
  apply (relation "inv_image (less_than <*lex*> less_than)
      (\<lambda>(vs, ecs, dsi, ds, recs). (card (closure_unions ecs - set ds), length ds - dsi))")
   apply (intro wf_inv_image wf_lex_prod wf_less_than)
  using dfa_body_decreases apply auto
  done

declare dfa_loop.simps [simp del]

section \<open>The resulting automaton\<close>

text \<open>
  Modelled from the spec: \<^verbatim>\<open>dfa.h\<close> is not among the sources. A DFA is a sequence of
  states, each with an accepting flag \<^verbatim>\<open>is_end\<close> and a mapping \<^verbatim>\<open>refs\<close> from a symbol to
  exactly one successor index; \<^verbatim>\<open>DFA dfa(n)\<close> makes \<open>n\<close> states that accept nothing and
  have no transition, and \<^verbatim>\<open>emplace\<close> keeps the entry of a key that is already there.
\<close>

record DFAState =
  is_end :: bool
  refs :: "(cchar \<times> int) list"

type_synonym DFA = "DFAState list"

definition DFA_init :: "nat \<Rightarrow> DFA" where
  "DFA_init n = replicate n \<lparr>is_end = False, refs = []\<rparr>"

definition emplace :: "cchar \<Rightarrow> int \<Rightarrow> (cchar \<times> int) list \<Rightarrow> (cchar \<times> int) list" where
  "emplace k v m = (case map_of m k of None \<Rightarrow> m @ [(k, v)] | Some _ \<Rightarrow> m)"

text \<open>\<^verbatim>\<open>for(size_t i = 0; i < dfa.size(); i++) dfa[i].is_end = dfa_states[i].find(nfa.end) != dfa_states[i].end();\<close>\<close>

definition mark_ends :: "int set list \<Rightarrow> int \<Rightarrow> DFA \<Rightarrow> DFA" where
  "mark_ends dfa_states e dfa =
     fold (\<lambda>i d. d[i := (d ! i)\<lparr>is_end := e \<in> dfa_states ! i\<rparr>]) [0..<length dfa] dfa"

text \<open>The third lambda: \<^verbatim>\<open>dfa[rec.from].refs.emplace(rec.rule, rec.to)\<close>.\<close>

definition add_record :: "DFARefRecord \<Rightarrow> DFA \<Rightarrow> error + DFA" where
  "add_record r dfa =
     (if \<not> in_range (from' r) dfa then Inl OutOfRange
      else Inr (dfa[nat (from' r) :=
                  (dfa ! nat (from' r))\<lparr>refs := emplace (rule' r) (to' r) (refs (dfa ! nat (from' r)))\<rparr>]))"

text \<open>
  \<^verbatim>\<open>NFA::nfa2dfa()\<close>, in its two parts: the table of DFA states with the transition
  records, and the automaton made of them. The method is not \<^verbatim>\<open>const\<close>, so it returns
  the automaton it ran on next to its result.
\<close>

definition subset_construction :: "NFA \<Rightarrow> error + int set list \<times> DFARefRecord list" where
  "subset_construction a =
     (case calculate_epsilon_closures (vec a) (replicate (length (vec a)) {}) of
        Inl er \<Rightarrow> Inl er
      | Inr epsilon_closures \<Rightarrow>
          if \<not> in_range (start (nfa a)) epsilon_closures then Inl OutOfRange
          else dfa_loop (vec a) epsilon_closures 0 [epsilon_closures ! nat (start (nfa a))] [])"

definition construct_dfa :: "int \<Rightarrow> int set list \<Rightarrow> DFARefRecord list \<Rightarrow> error + DFA" where
  "construct_dfa e dfa_states dfa_ref_records =
     for_each dfa_ref_records add_record
       (mark_ends dfa_states e (DFA_init (length dfa_states)))"

definition nfa2dfa :: "NFA \<Rightarrow> (error + DFA) \<times> NFA" where
  "nfa2dfa a =
     (case subset_construction a of
        Inl er \<Rightarrow> (Inl er, a)
      | Inr (dfa_states, dfa_ref_records) \<Rightarrow>
          (construct_dfa (end' (nfa a)) dfa_states dfa_ref_records, a))"

text \<open>
  Modelled from the spec: the matching engine is an external collaborator. It drives the
  DFA from state 0, one input symbol at a time; a symbol with no recorded transition
  rejects, and the input is accepted when the state reached has the accepting flag.
\<close>

fun dfa_run :: "DFA \<Rightarrow> int \<Rightarrow> cchar list \<Rightarrow> int option" where
  "dfa_run dfa q [] = (if in_range q dfa then Some q else None)"
| "dfa_run dfa q (c # w) =
     (if \<not> in_range q dfa then None
      else (case map_of (refs (dfa ! nat q)) c of
              None \<Rightarrow> None
            | Some q' \<Rightarrow> dfa_run dfa q' w))"

definition dfa_accepts :: "DFA \<Rightarrow> cchar list \<Rightarrow> bool" where
  "dfa_accepts dfa w = (case dfa_run dfa 0 w of None \<Rightarrow> False | Some q \<Rightarrow> is_end (dfa ! nat q))"

section \<open>What an automaton accepts\<close>

text \<open>
  The state sequence read as the glossary reads it: a state whose rule is the epsilon
  sentinel moves to each of its defined targets without consuming input; a state whose
  rule is a symbol moves to its first target on that symbol; a state with the undefined
  rule moves nowhere. The automaton accepts an input when a run leads from the start of
  its overall fragment to the end of it.
\<close>

definition eps_edges :: "NFAState list \<Rightarrow> (int \<times> int) set" where
  "eps_edges vs =
     {(i, j). in_range i vs \<and> rule (vs ! nat i) = RULE_EPSILON \<and> j \<noteq> REF_UNDEFINED \<and>
              (j = first (vs ! nat i) \<or> j = second (vs ! nat i))}"

definition sym_edges :: "NFAState list \<Rightarrow> cchar \<Rightarrow> (int \<times> int) set" where
  "sym_edges vs c =
     {(i, j). in_range i vs \<and> rule (vs ! nat i) = c \<and> c \<noteq> RULE_EPSILON \<and>
              c \<noteq> RULE_UNDEFINED \<and> j = first (vs ! nat i)}"

inductive nfa_run :: "NFAState list \<Rightarrow> int \<Rightarrow> cchar list \<Rightarrow> int \<Rightarrow> bool" for vs where
  stay: "in_range i vs \<Longrightarrow> nfa_run vs i [] i"
| eps: "(i, k) \<in> eps_edges vs \<Longrightarrow> nfa_run vs k w j \<Longrightarrow> nfa_run vs i w j"
| sym: "(i, k) \<in> sym_edges vs c \<Longrightarrow> nfa_run vs k w j \<Longrightarrow> nfa_run vs i (c # w) j"

definition nfa_accepts :: "NFA \<Rightarrow> cchar list \<Rightarrow> bool" where
  "nfa_accepts a w \<longleftrightarrow> nfa_run (vec a) (start (nfa a)) w (end' (nfa a))"

section \<open>Example automata\<close>

text \<open>The automaton of the pattern \<open>a\<close> and that of \<open>a*\<close>, built by the operations.\<close>

definition lit_a :: NFA where
  "lit_a = snd (ch 97 NFA_init)"

definition star_a :: NFA where
  "star_a = (case star (nfa lit_a) lit_a of Inr (r, a) \<Rightarrow> a | Inl er \<Rightarrow> lit_a)"

section \<open>Empty requests\<close>

text \<open>
  C7. \<^verbatim>\<open>range\<close> called with \<open>lo > hi\<close> and \<^verbatim>\<open>one_of\<close> called with an empty character
  list both return the sentinel empty fragment, whose start and end are both
  \<open>REF_UNDEFINED\<close>; they do not fail and the automaton they return is the one they were
  given, so no state is appended. \<^verbatim>\<open>range\<close> called with \<open>lo = hi\<close> returns exactly what
  \<^verbatim>\<open>ch lo\<close> returns.
\<close>

theorem empty_requests_give_sentinel:
  "(sint hi < sint lo \<longrightarrow> range' lo hi a = Some (Inr (NFASubsetRef_init, a))) \<and>
   one_of [] a = Inr (NFASubsetRef_init, a) \<and>
   one_of (0 # cs) a = Inr (NFASubsetRef_init, a) \<and>
   start NFASubsetRef_init = REF_UNDEFINED \<and> end' NFASubsetRef_init = REF_UNDEFINED \<and>
   range' lo lo a = Some (Inr (ch lo a))"
  by (simp add: range'_def one_of_def NFASubsetRef_init_def)

theorem empty_requests_give_sentinel_witness:
  "sint (97 :: cchar) < sint (99 :: cchar) \<and>
   range' 99 97 (snd (ch 120 NFA_init)) = Some (Inr (NFASubsetRef_init, snd (ch 120 NFA_init)))"
  using empty_requests_give_sentinel [of 97 99 "snd (ch 120 NFA_init)"] by simp

section \<open>Conversion reads the automaton only\<close>

text \<open>
  C8. Converting an automaton leaves it unchanged: whether \<^verbatim>\<open>nfa2dfa\<close> returns a DFA or
  stops with an error, the automaton after the call, that is its state sequence and its
  stored overall fragment, is the automaton before the call.
\<close>

theorem nfa2dfa_leaves_nfa: "snd (nfa2dfa a) = a"
  by (simp add: nfa2dfa_def split: sum.splits prod.splits)

section \<open>Equal member sets are one DFA state\<close>

lemma index_closure_distinct:
  assumes "distinct ds" "index_closure dsi cs (ds, recs) = (ds', recs')"
  shows "distinct ds'"
  using assms by (auto simp: index_closure_def find_pos_None split: option.splits)

lemma find_pos_distinct:
  "distinct ys \<Longrightarrow> i < length ys \<Longrightarrow> find_pos (ys ! i) ys = Some i"
proof (induction ys arbitrary: i)
  case Nil
  then show ?case by simp
next
  case (Cons y ys)
  then show ?case by (cases i) auto
qed

lemma fold_index_closure_distinct:
  "distinct ds \<Longrightarrow> fold (index_closure dsi) L (ds, recs) = (ds', recs') \<Longrightarrow> distinct ds'"
proof (induction L arbitrary: ds recs)
  case Nil
  then show ?case by simp
next
  case (Cons cs L)
  obtain ds1 recs1 where s1: "index_closure dsi cs (ds, recs) = (ds1, recs1)"
    by (cases "index_closure dsi cs (ds, recs)")
  with Cons.prems(2) have "fold (index_closure dsi) L (ds1, recs1) = (ds', recs')" by simp
  moreover have "distinct ds1" using index_closure_distinct[OF Cons.prems(1) s1] .
  ultimately show ?case by (rule Cons.IH[rotated])
qed

lemma dfa_body_distinct:
  "distinct ds \<Longrightarrow> dfa_body vs ecs dsi ds recs = Inr (ds', recs') \<Longrightarrow> distinct ds'"
  by (auto simp: dfa_body_def split: sum.splits dest: fold_index_closure_distinct)

lemma dfa_loop_invariant:
  assumes "dfa_loop vs ecs dsi ds recs = Inr (ds', recs')" "I dsi ds recs"
    and "\<And>dsi ds recs ds1 recs1. I dsi ds recs \<Longrightarrow> dsi < length ds \<Longrightarrow>
           dfa_body vs ecs dsi ds recs = Inr (ds1, recs1) \<Longrightarrow> I (Suc dsi) ds1 recs1"
  shows "\<exists>dsi'. I dsi' ds' recs' \<and> length ds' \<le> dsi'"
  using assms
proof (induction vs ecs dsi ds recs rule: dfa_loop.induct)
  case (1 vs ecs dsi ds recs)
  show ?case
  proof (cases "dsi < length ds")
    case True
    with "1.prems"(1) obtain ds1 recs1 where
      b: "dfa_body vs ecs dsi ds recs = Inr (ds1, recs1)"
      and l: "dfa_loop vs ecs (dsi + 1) ds1 recs1 = Inr (ds', recs')"
      by (subst (asm) dfa_loop.simps) (auto split: sum.splits)
    have "I (dsi + 1) ds1 recs1"
      using "1.prems"(3)[OF "1.prems"(2) True b] by simp
    then show ?thesis
      using "1.IH"[OF True b refl l] "1.prems"(3) by blast
  next
    case False
    with "1.prems" show ?thesis
      by (subst (asm) dfa_loop.simps) auto
  qed
qed

lemma dfa_loop_distinct:
  assumes "distinct ds" "dfa_loop vs ecs dsi ds recs = Inr (ds', recs')"
  shows "distinct ds'"
  using dfa_loop_invariant[OF assms(2), where I = "\<lambda>dsi ds recs. distinct ds"] assms(1)
    dfa_body_distinct by blast

text \<open>
  C5. No two discovered DFA states have equal member sets. Each run of the indexing
  lambda keeps the table free of duplicates, and when the candidate set equals the
  member set of a state already in the table, the table is left as it is and the
  recorded transition targets the index of that state; the table is the singleton of
  the start closure at first and changes nowhere else, so the table that subset
  construction ends with is free of duplicates.
\<close>

theorem equal_subsets_collapse:
  "(distinct ds \<and> index_closure dsi cs (ds, recs) = (ds', recs') \<longrightarrow>
      distinct ds' \<and>
      (\<forall>i < length ds. ds ! i = snd cs \<longrightarrow>
         ds' = ds \<and> recs' = recs @ [\<lparr>from' = int dsi, rule' = fst cs, to' = int i\<rparr>])) \<and>
   (subset_construction a = Inr (dfa_states, dfa_ref_records) \<longrightarrow> distinct dfa_states)"
proof (intro conjI impI allI)
  assume a: "distinct ds \<and> index_closure dsi cs (ds, recs) = (ds', recs')"
  then show "distinct ds'"
    using index_closure_distinct by blast
  fix i assume "i < length ds" "ds ! i = snd cs"
  then have "find_pos (snd cs) ds = Some i"
    using find_pos_distinct a by metis
  then show "ds' = ds" "recs' = recs @ [\<lparr>from' = int dsi, rule' = fst cs, to' = int i\<rparr>]"
    using a by (auto simp: index_closure_def)
next
  assume "subset_construction a = Inr (dfa_states, dfa_ref_records)"
  then obtain ecs where
    "dfa_loop (vec a) ecs 0 [ecs ! nat (start (nfa a))] [] = Inr (dfa_states, dfa_ref_records)"
    by (auto simp: subset_construction_def split: sum.splits if_splits)
  then show "distinct dfa_states"
    using dfa_loop_distinct[of "[ecs ! nat (start (nfa a))]"] by simp
qed

theorem equal_subsets_collapse_witness:
  "distinct [{0, 2, 3}, {0, 1, 2, 3 :: int}] \<and>
   index_closure 1 (97, {0, 1, 2, 3}) ([{0, 2, 3}, {0, 1, 2, 3}], []) =
     ([{0, 2, 3}, {0, 1, 2, 3}], [\<lparr>from' = 1, rule' = 97, to' = 1\<rparr>]) \<and>
   subset_construction star_a =
     Inr ([{0, 2, 3}, {0, 1, 2, 3}],
          [\<lparr>from' = 0, rule' = 97, to' = 1\<rparr>, \<lparr>from' = 1, rule' = 97, to' = 1\<rparr>])"
proof -
  have h1: "distinct [{0, 2, 3}, {0, 1, 2, 3 :: int}]"
    by code_simp
  have h2: "index_closure 1 (97, {0, 1, 2, 3}) ([{0, 2, 3}, {0, 1, 2, 3}], []) =
     ([{0, 2, 3}, {0, 1, 2, 3}], [\<lparr>from' = 1, rule' = 97, to' = 1\<rparr>])"
    by code_simp
  have h3: "subset_construction star_a =
     Inr ([{0, 2, 3}, {0, 1, 2, 3}],
          [\<lparr>from' = 0, rule' = 97, to' = 1\<rparr>, \<lparr>from' = 1, rule' = 97, to' = 1\<rparr>])"
    by code_simp
  from h1 h2 h3 equal_subsets_collapse
    [of "[{0, 2, 3}, {0, 1, 2, 3}]" 1 "(97, {0, 1, 2, 3})" "[]" "[{0, 2, 3}, {0, 1, 2, 3}]"
        "[\<lparr>from' = 1, rule' = 97, to' = 1\<rparr>]" star_a "[{0, 2, 3}, {0, 1, 2, 3}]"
        "[\<lparr>from' = 0, rule' = 97, to' = 1\<rparr>, \<lparr>from' = 1, rule' = 97, to' = 1\<rparr>]"]
  show ?thesis
    by blast
qed

section \<open>Epsilon closures are exact\<close>

text \<open>
  The set of states reachable from a state by zero or more epsilon transitions, in the
  words of the spec, and the invariant of the closure loops: every table entry is within
  that set; the entry of a flagged state is that set, its epsilon targets are flagged,
  and it lies on no epsilon cycle.
\<close>

definition closure_of :: "NFAState list \<Rightarrow> int \<Rightarrow> int set" where
  "closure_of nss i = {j. (i, j) \<in> (eps_edges nss)\<^sup>*}"

definition ec_inv :: "NFAState list \<Rightarrow> bool list \<Rightarrow> int set list \<Rightarrow> bool" where
  "ec_inv nss flag ecs \<longleftrightarrow>
     length flag = length nss \<and> length ecs = length nss \<and>
     (\<forall>x. in_range x nss \<longrightarrow> ecs ! nat x \<subseteq> closure_of nss x) \<and>
     (\<forall>x. in_range x nss \<and> flag ! nat x \<longrightarrow>
        ecs ! nat x = closure_of nss x \<and> (x, x) \<notin> (eps_edges nss)\<^sup>+ \<and>
        (\<forall>y. (x, y) \<in> eps_edges nss \<longrightarrow> in_range y nss \<and> flag ! nat y))"

lemma ec_body_Inr_cases:
  assumes "ec_body nss flag ecs stack = Inr (flag', ecs', stack')"
  obtains
    (push1) "rule (nss ! nat (hd stack)) = RULE_EPSILON"
      "visit (hd stack) (first (nss ! nat (hd stack))) flag ecs = Inr None"
      "flag' = flag" "ecs' = ecs" "stack' = first (nss ! nat (hd stack)) # stack"
      "length stack \<le> length ecs" "in_range (hd stack) nss"
  | (push2) ecs1 where "rule (nss ! nat (hd stack)) = RULE_EPSILON"
      "visit (hd stack) (first (nss ! nat (hd stack))) flag ecs = Inr (Some ecs1)"
      "visit (hd stack) (second (nss ! nat (hd stack))) flag ecs1 = Inr None"
      "flag' = flag" "ecs' = ecs1" "stack' = second (nss ! nat (hd stack)) # stack"
      "length stack \<le> length ecs" "in_range (hd stack) nss"
  | (pop_eps) ecs1 ecs2 where "rule (nss ! nat (hd stack)) = RULE_EPSILON"
      "visit (hd stack) (first (nss ! nat (hd stack))) flag ecs = Inr (Some ecs1)"
      "visit (hd stack) (second (nss ! nat (hd stack))) flag ecs1 = Inr (Some ecs2)"
      "finish (hd stack) flag ecs2 stack = Inr (flag', ecs', stack')"
      "length stack \<le> length ecs" "in_range (hd stack) nss"
  | (pop_sym) "rule (nss ! nat (hd stack)) \<noteq> RULE_EPSILON"
      "finish (hd stack) flag ecs stack = Inr (flag', ecs', stack')"
      "length stack \<le> length ecs" "in_range (hd stack) nss"
proof -
  let ?argi = "hd stack"
  let ?s1 = "first (nss ! nat ?argi)"
  let ?s2 = "second (nss ! nat ?argi)"
  from assms have g: "length stack \<le> length ecs" "in_range ?argi nss"
    by (auto simp: ec_body_def Let_def split: if_splits)
  show thesis
  proof (cases "rule (nss ! nat ?argi) = RULE_EPSILON")
    case False
    with assms g have "finish ?argi flag ecs stack = Inr (flag', ecs', stack')"
      by (simp add: ec_body_def Let_def)
    with False g show thesis by (intro pop_sym) simp_all
  next
    case True
    with assms g have b: "(case visit ?argi ?s1 flag ecs of
             Inl er \<Rightarrow> Inl er
           | Inr None \<Rightarrow> Inr (flag, ecs, ?s1 # stack)
           | Inr (Some ecs1) \<Rightarrow>
               (case visit ?argi ?s2 flag ecs1 of
                  Inl er \<Rightarrow> Inl er
                | Inr None \<Rightarrow> Inr (flag, ecs1, ?s2 # stack)
                | Inr (Some ecs2) \<Rightarrow> finish ?argi flag ecs2 stack)) = Inr (flag', ecs', stack')"
      by (simp add: ec_body_def Let_def)
    show thesis
    proof (cases "visit ?argi ?s1 flag ecs")
      case (Inl er)
      with b show thesis by simp
    next
      case (Inr r1)
      show thesis
      proof (cases r1)
        case None
        with Inr b have "flag' = flag" "ecs' = ecs" "stack' = ?s1 # stack" by simp_all
        with True Inr None g show thesis by (intro push1) simp_all
      next
        case (Some ecs1)
        with Inr b have b2: "(case visit ?argi ?s2 flag ecs1 of
                  Inl er \<Rightarrow> Inl er
                | Inr None \<Rightarrow> Inr (flag, ecs1, ?s2 # stack)
                | Inr (Some ecs2) \<Rightarrow> finish ?argi flag ecs2 stack) = Inr (flag', ecs', stack')"
          by simp
        have v1: "visit ?argi ?s1 flag ecs = Inr (Some ecs1)" using Inr Some by simp
        show thesis
        proof (cases "visit ?argi ?s2 flag ecs1")
          case (Inl er)
          with b2 show thesis by simp
        next
          case (Inr r2)
          show thesis
          proof (cases r2)
            case None
            with Inr b2 have "flag' = flag" "ecs' = ecs1" "stack' = ?s2 # stack" by simp_all
            with True v1 Inr None g show thesis by (intro push2[of ecs1]) simp_all
          next
            case (Some ecs2)
            with Inr b2 have "finish ?argi flag ecs2 stack = Inr (flag', ecs', stack')" by simp
            with True v1 Inr Some g show thesis by (intro pop_eps[of ecs1 ecs2]) simp_all
          qed
        qed
      qed
    qed
  qed
qed

lemma closure_of_self: "x \<in> closure_of nss x"
  by (simp add: closure_of_def)

lemma closure_of_step: "(x, y) \<in> eps_edges nss \<Longrightarrow> closure_of nss y \<subseteq> closure_of nss x"
  by (auto simp: closure_of_def intro: converse_rtrancl_into_rtrancl)

lemma closure_of_unfold:
  "closure_of nss x = insert x (\<Union>y \<in> eps_edges nss `` {x}. closure_of nss y)"
proof
  show "closure_of nss x \<subseteq> insert x (\<Union>y \<in> eps_edges nss `` {x}. closure_of nss y)"
  proof
    fix z assume "z \<in> closure_of nss x"
    then have "(x, z) \<in> (eps_edges nss)\<^sup>*" by (simp add: closure_of_def)
    then show "z \<in> insert x (\<Union>y \<in> eps_edges nss `` {x}. closure_of nss y)"
      by (cases rule: converse_rtranclE) (auto simp: closure_of_def)
  qed
  show "insert x (\<Union>y \<in> eps_edges nss `` {x}. closure_of nss y) \<subseteq> closure_of nss x"
    using closure_of_self closure_of_step by fastforce
qed

lemma eps_edges_iff:
  "(x, y) \<in> eps_edges nss \<longleftrightarrow>
     in_range x nss \<and> rule (nss ! nat x) = RULE_EPSILON \<and> y \<noteq> REF_UNDEFINED \<and>
     (y = first (nss ! nat x) \<or> y = second (nss ! nat x))"
  by (simp add: eps_edges_def)

lemma in_range_nat: "in_range i xs \<Longrightarrow> nat i < length xs"
  by (simp add: in_range_def nat_less_iff)

lemma in_range_int [simp]: "in_range (int i) xs \<longleftrightarrow> i < length xs"
  by (simp add: in_range_def)

lemma in_range_nat_eq: "in_range x xs \<Longrightarrow> in_range y ys \<Longrightarrow> nat x = nat y \<longleftrightarrow> x = y"
  unfolding in_range_def by linarith

lemma in_range_length: "length xs = length ys \<Longrightarrow> in_range i xs = in_range i ys"
  by (simp add: in_range_def)

lemma ec_inv_len: "ec_inv nss flag ecs \<Longrightarrow> length flag = length nss \<and> length ecs = length nss"
  by (simp add: ec_inv_def)

lemma ec_inv_sub: "ec_inv nss flag ecs \<Longrightarrow> in_range x nss \<Longrightarrow> ecs ! nat x \<subseteq> closure_of nss x"
  unfolding ec_inv_def by blast

lemma ec_inv_eq:
  "ec_inv nss flag ecs \<Longrightarrow> in_range x nss \<Longrightarrow> flag ! nat x \<Longrightarrow> ecs ! nat x = closure_of nss x"
  unfolding ec_inv_def by blast

lemma ec_inv_acyclic:
  "ec_inv nss flag ecs \<Longrightarrow> in_range x nss \<Longrightarrow> flag ! nat x \<Longrightarrow> (x, x) \<notin> (eps_edges nss)\<^sup>+"
  unfolding ec_inv_def by blast

lemma ec_inv_succ:
  "ec_inv nss flag ecs \<Longrightarrow> in_range x nss \<Longrightarrow> flag ! nat x \<Longrightarrow> (x, y) \<in> eps_edges nss \<Longrightarrow>
     in_range y nss \<and> flag ! nat y"
  unfolding ec_inv_def by blast

lemma ec_invI:
  assumes "length flag = length nss" "length ecs = length nss"
    and "\<And>x. in_range x nss \<Longrightarrow> ecs ! nat x \<subseteq> closure_of nss x"
    and "\<And>x. in_range x nss \<Longrightarrow> flag ! nat x \<Longrightarrow> ecs ! nat x = closure_of nss x"
    and "\<And>x. in_range x nss \<Longrightarrow> flag ! nat x \<Longrightarrow> (x, x) \<notin> (eps_edges nss)\<^sup>+"
    and "\<And>x y. in_range x nss \<Longrightarrow> flag ! nat x \<Longrightarrow> (x, y) \<in> eps_edges nss \<Longrightarrow>
           in_range y nss \<and> flag ! nat y"
  shows "ec_inv nss flag ecs"
  unfolding ec_inv_def using assms by blast

text \<open>Absorbing the closure of a flagged target keeps the invariant.\<close>

lemma visit_Some_inv:
  assumes inv: "ec_inv nss flag ecs"
    and argi: "in_range argi nss" "rule (nss ! nat argi) = RULE_EPSILON"
    and s: "s = first (nss ! nat argi) \<or> s = second (nss ! nat argi)"
    and v: "visit argi s flag ecs = Inr (Some ecs1)"
  shows "ec_inv nss flag ecs1 \<and> ecs ! nat argi \<subseteq> ecs1 ! nat argi \<and>
    (s \<noteq> REF_UNDEFINED \<longrightarrow> in_range s nss \<and> flag ! nat s \<and> closure_of nss s \<subseteq> ecs1 ! nat argi)"
proof (cases "s = REF_UNDEFINED")
  case True
  with v have "ecs1 = ecs" by (simp add: visit_def)
  with True inv show ?thesis by simp
next
  case False
  have len: "length flag = length nss" "length ecs = length nss"
    using ec_inv_len[OF inv] by simp_all
  from v False have sr: "in_range s flag" and fs: "flag ! nat s"
    and e1: "ecs1 = ecs[nat argi := ecs ! nat argi \<union> ecs ! nat s]"
    by (auto simp: visit_def insert_closure_def split: if_splits sum.splits)
  have srn: "in_range s nss" using sr len in_range_length by blast
  have edge: "(argi, s) \<in> eps_edges nss"
    using argi s False by (simp add: eps_edges_iff)
  have cs: "ecs ! nat s = closure_of nss s"
    using ec_inv_eq[OF inv srn fs] .
  have sub: "closure_of nss s \<subseteq> closure_of nss argi"
    using closure_of_step[OF edge] .
  have an: "nat argi < length ecs" using in_range_nat[OF argi(1)] len by simp
  have new: "ecs1 ! nat argi = ecs ! nat argi \<union> closure_of nss s"
    using e1 an cs by simp
  have other: "ecs1 ! nat x = ecs ! nat x" if "in_range x nss" "x \<noteq> argi" for x
  proof -
    have "nat x \<noteq> nat argi" using that argi in_range_nat_eq by blast
    then show ?thesis using e1 by simp
  qed
  have "ec_inv nss flag ecs1"
  proof (rule ec_invI)
    show "length flag = length nss" by (rule len)
    show "length ecs1 = length nss" using e1 len by simp
  next
    fix x assume x: "in_range x nss"
    show "ecs1 ! nat x \<subseteq> closure_of nss x"
    proof (cases "x = argi")
      case True
      have "ecs ! nat argi \<subseteq> closure_of nss argi" using ec_inv_sub[OF inv argi(1)] .
      then show ?thesis using new sub True by simp
    next
      case False
      then show ?thesis using other[OF x] ec_inv_sub[OF inv x] by simp
    qed
  next
    fix x assume x: "in_range x nss" "flag ! nat x"
    show "ecs1 ! nat x = closure_of nss x"
    proof (cases "x = argi")
      case True
      then have "ecs ! nat argi = closure_of nss argi" using ec_inv_eq[OF inv x] by simp
      then show ?thesis using new sub True by auto
    next
      case False
      then show ?thesis using other[OF x(1)] ec_inv_eq[OF inv x] by simp
    qed
    show "(x, x) \<notin> (eps_edges nss)\<^sup>+" using ec_inv_acyclic[OF inv x] .
  next
    fix x y assume "in_range x nss" "flag ! nat x" "(x, y) \<in> eps_edges nss"
    then show "in_range y nss \<and> flag ! nat y" by (rule ec_inv_succ[OF inv])
  qed
  then show ?thesis
    using new srn fs by auto
qed

lemma flagged_closed:
  assumes inv: "ec_inv nss flag ecs" and "(y, z) \<in> (eps_edges nss)\<^sup>*" "in_range y nss" "flag ! nat y"
  shows "in_range z nss \<and> flag ! nat z"
  using assms(2-)
proof (induction rule: rtrancl_induct)
  case base
  then show ?case by simp
next
  case (step u v)
  then show ?case using ec_inv_succ[OF inv] by blast
qed

lemma finish_inv:
  assumes inv: "ec_inv nss flag ecs" and argi: "in_range argi nss"
    and succ: "\<And>y. (argi, y) \<in> eps_edges nss \<Longrightarrow>
                 in_range y nss \<and> flag ! nat y \<and> closure_of nss y \<subseteq> ecs ! nat argi"
    and fin: "finish argi flag ecs stack = Inr (flag', ecs', stack')"
  shows "ec_inv nss flag' ecs' \<and> flag' ! nat argi \<and> stack' = tl stack \<and>
         (\<forall>x. in_range x nss \<and> flag ! nat x \<longrightarrow> flag' ! nat x)"
proof -
  have len: "length flag = length nss" "length ecs = length nss"
    using ec_inv_len[OF inv] by simp_all
  from fin have f': "flag' = flag[nat argi := True]"
    and e': "ecs' = ecs[nat argi := insert argi (ecs ! nat argi)]" and st: "stack' = tl stack"
    by (auto simp: finish_def split: if_splits)
  have an: "nat argi < length nss" using in_range_nat[OF argi] .
  have fa: "flag' ! nat argi" using f' an len by simp
  have mono: "flag' ! nat x" if "in_range x nss" "flag ! nat x" for x
    using that f' in_range_nat[OF that(1)] an len by (auto simp: nth_list_update)
  have fother: "flag' ! nat x = flag ! nat x" if "in_range x nss" "x \<noteq> argi" for x
  proof -
    have "nat x \<noteq> nat argi" using that argi in_range_nat_eq by blast
    then show ?thesis using f' by simp
  qed
  have eother: "ecs' ! nat x = ecs ! nat x" if "in_range x nss" "x \<noteq> argi" for x
  proof -
    have "nat x \<noteq> nat argi" using that argi in_range_nat_eq by blast
    then show ?thesis using e' by simp
  qed
  have enew: "ecs' ! nat argi = insert argi (ecs ! nat argi)"
    using e' an len by simp
  have sub_a: "insert argi (ecs ! nat argi) \<subseteq> closure_of nss argi"
    using ec_inv_sub[OF inv argi] closure_of_self by auto
  have sup_a: "closure_of nss argi \<subseteq> insert argi (ecs ! nat argi)"
    by (subst closure_of_unfold) (use succ in auto)
  have "ec_inv nss flag' ecs'"
  proof (rule ec_invI)
    show "length flag' = length nss" using f' len by simp
    show "length ecs' = length nss" using e' len by simp
  next
    fix x assume x: "in_range x nss"
    show "ecs' ! nat x \<subseteq> closure_of nss x"
    proof (cases "x = argi")
      case True
      then show ?thesis using enew sub_a by simp
    next
      case False
      then show ?thesis using eother[OF x] ec_inv_sub[OF inv x] by simp
    qed
  next
    fix x assume x: "in_range x nss" "flag' ! nat x"
    show "ecs' ! nat x = closure_of nss x"
    proof (cases "x = argi")
      case True
      then show ?thesis using enew sub_a sup_a by blast
    next
      case False
      then show ?thesis using eother[OF x(1)] fother[OF x(1)] x(2) ec_inv_eq[OF inv x(1)] by simp
    qed
    show "(x, x) \<notin> (eps_edges nss)\<^sup>+"
    proof (cases "flag ! nat x")
      case True
      then show ?thesis using ec_inv_acyclic[OF inv x(1)] by simp
    next
      case False
      then have xa: "x = argi" using fother[OF x(1)] x(2) by blast
      show ?thesis
      proof
        assume "(x, x) \<in> (eps_edges nss)\<^sup>+"
        then obtain y where y: "(argi, y) \<in> eps_edges nss" "(y, argi) \<in> (eps_edges nss)\<^sup>*"
          using xa by (meson tranclD)
        from succ[OF y(1)] have "in_range y nss" "flag ! nat y" by simp_all
        from flagged_closed[OF inv y(2) this] have "flag ! nat argi" by simp
        with False xa show False by simp
      qed
    qed
  next
    fix x y assume x: "in_range x nss" "flag' ! nat x" and e: "(x, y) \<in> eps_edges nss"
    have "in_range y nss \<and> flag ! nat y"
    proof (cases "x = argi")
      case True
      then show ?thesis using succ e by blast
    next
      case False
      then show ?thesis using fother[OF x(1)] x(2) ec_inv_succ[OF inv x(1) _ e] by simp
    qed
    then show "in_range y nss \<and> flag' ! nat y" using mono by blast
  qed
  then show ?thesis using fa st mono by blast
qed

lemma ec_body_inv:
  assumes inv: "ec_inv nss flag ecs"
    and b: "ec_body nss flag ecs stack = Inr (flag', ecs', stack')"
  shows "ec_inv nss flag' ecs' \<and>
         (\<forall>x. in_range x nss \<and> flag ! nat x \<longrightarrow> flag' ! nat x) \<and>
         in_range (hd stack) nss \<and>
         ((\<exists>s. stack' = s # stack) \<or> (stack' = tl stack \<and> flag' ! nat (hd stack)))"
  using b
proof (cases rule: ec_body_Inr_cases)
  case push1
  then show ?thesis using inv by simp
next
  case (push2 ecs1)
  from visit_Some_inv[OF inv push2(8) push2(1) _ push2(2)] push2 show ?thesis by simp
next
  case (pop_eps ecs1 ecs2)
  let ?argi = "hd stack"
  from visit_Some_inv[OF inv pop_eps(6) pop_eps(1) _ pop_eps(2)]
  have i1: "ec_inv nss flag ecs1" and m1: "ecs ! nat ?argi \<subseteq> ecs1 ! nat ?argi"
    and c1: "first (nss ! nat ?argi) \<noteq> REF_UNDEFINED \<Longrightarrow>
       in_range (first (nss ! nat ?argi)) nss \<and> flag ! nat (first (nss ! nat ?argi)) \<and>
       closure_of nss (first (nss ! nat ?argi)) \<subseteq> ecs1 ! nat ?argi"
    by simp_all
  from visit_Some_inv[OF i1 pop_eps(6) pop_eps(1) _ pop_eps(3)]
  have i2: "ec_inv nss flag ecs2" and m2: "ecs1 ! nat ?argi \<subseteq> ecs2 ! nat ?argi"
    and c2: "second (nss ! nat ?argi) \<noteq> REF_UNDEFINED \<Longrightarrow>
       in_range (second (nss ! nat ?argi)) nss \<and> flag ! nat (second (nss ! nat ?argi)) \<and>
       closure_of nss (second (nss ! nat ?argi)) \<subseteq> ecs2 ! nat ?argi"
    by simp_all
  have succ: "in_range y nss \<and> flag ! nat y \<and> closure_of nss y \<subseteq> ecs2 ! nat ?argi"
    if "(?argi, y) \<in> eps_edges nss" for y
  proof -
    from that have "y \<noteq> REF_UNDEFINED"
      "y = first (nss ! nat ?argi) \<or> y = second (nss ! nat ?argi)"
      by (simp_all add: eps_edges_iff)
    then show ?thesis using c1 c2 m2 by blast
  qed
  from finish_inv[OF i2 pop_eps(6) succ pop_eps(4)] pop_eps(6) show ?thesis by blast
next
  case pop_sym
  have succ: "in_range y nss \<and> flag ! nat y \<and> closure_of nss y \<subseteq> ecs ! nat (hd stack)"
    if "(hd stack, y) \<in> eps_edges nss" for y
    using that pop_sym(1) by (simp add: eps_edges_iff)
  from finish_inv[OF inv pop_sym(4) succ pop_sym(2)] pop_sym(4) show ?thesis by blast
qed

lemma ec_while_inv:
  assumes "ec_while nss flag ecs stack = Inr (flag', ecs')" "ec_inv nss flag ecs"
  shows "ec_inv nss flag' ecs' \<and>
         (\<forall>x. in_range x nss \<and> flag ! nat x \<longrightarrow> flag' ! nat x) \<and>
         (\<forall>s \<in> set stack. in_range s nss \<and> flag' ! nat s)"
  using assms
proof (induction nss flag ecs stack rule: ec_while.induct)
  case (1 nss flag ecs stack)
  show ?case
  proof (cases "stack = []")
    case True
    with "1.prems" show ?thesis by (simp add: ec_while.simps)
  next
    case False
    with "1.prems"(1) obtain f1 e1 s1 where
      b: "ec_body nss flag ecs stack = Inr (f1, e1, s1)"
      and w: "ec_while nss f1 e1 s1 = Inr (flag', ecs')"
      by (subst (asm) ec_while.simps) (auto split: sum.splits)
    from ec_body_inv[OF "1.prems"(2) b]
    have i1: "ec_inv nss f1 e1"
      and m1: "\<forall>x. in_range x nss \<and> flag ! nat x \<longrightarrow> f1 ! nat x"
      and hr: "in_range (hd stack) nss"
      and sh: "(\<exists>s. s1 = s # stack) \<or> (s1 = tl stack \<and> f1 ! nat (hd stack))"
      by simp_all
    from "1.IH"[OF False b refl refl w i1]
    have i': "ec_inv nss flag' ecs'"
      and m': "\<forall>x. in_range x nss \<and> f1 ! nat x \<longrightarrow> flag' ! nat x"
      and s': "\<forall>s \<in> set s1. in_range s nss \<and> flag' ! nat s"
      by simp_all
    have "\<forall>s \<in> set stack. in_range s nss \<and> flag' ! nat s"
      using sh
    proof
      assume "\<exists>s. s1 = s # stack"
      then show ?thesis using s' by auto
    next
      assume a: "s1 = tl stack \<and> f1 ! nat (hd stack)"
      then have "in_range (hd stack) nss \<and> flag' ! nat (hd stack)" using hr m' by blast
      moreover have "set stack = insert (hd stack) (set (tl stack))"
        using False by (cases stack) auto
      ultimately show ?thesis using s' a by auto
    qed
    then show ?thesis using i' m1 m' by blast
  qed
qed

lemma ec_for_inv:
  assumes "ec_for nss is flag ecs = Inr (flag', ecs')" "ec_inv nss flag ecs"
  shows "ec_inv nss flag' ecs' \<and>
         (\<forall>x. in_range x nss \<and> flag ! nat x \<longrightarrow> flag' ! nat x) \<and>
         (\<forall>i \<in> set is. i < length nss \<and> flag' ! i)"
  using assms
proof (induction "is" arbitrary: flag ecs)
  case Nil
  then show ?case by simp
next
  case (Cons i "is")
  from Cons.prems(1) obtain f1 e1 where
    w: "ec_while nss flag ecs [int i] = Inr (f1, e1)" and r: "ec_for nss is f1 e1 = Inr (flag', ecs')"
    by (auto split: sum.splits)
  from ec_while_inv[OF w Cons.prems(2)]
  have i1: "ec_inv nss f1 e1" and m1: "\<forall>x. in_range x nss \<and> flag ! nat x \<longrightarrow> f1 ! nat x"
    and fi: "i < length nss" "f1 ! i"
    by simp_all
  from Cons.IH[OF r i1]
  have i': "ec_inv nss flag' ecs'" and m': "\<forall>x. in_range x nss \<and> f1 ! nat x \<longrightarrow> flag' ! nat x"
    and r': "\<forall>i \<in> set is. i < length nss \<and> flag' ! i"
    by simp_all
  have "flag' ! i" using m'[rule_format, of "int i"] fi by simp
  then show ?case using i' m1 m' r' fi by auto
qed

lemma ec_inv_init: "ec_inv nss (replicate (length nss) False) (replicate (length nss) {})"
  by (rule ec_invI) (simp_all add: in_range_nat)

lemma calculate_epsilon_closures_inv:
  assumes "calculate_epsilon_closures nss (replicate (length nss) {}) = Inr ecs"
  shows "\<exists>flag. ec_inv nss flag ecs \<and> (\<forall>i < length nss. flag ! i)"
proof -
  from assms obtain flag where
    f: "ec_for nss [0..<length nss] (replicate (length nss) False) (replicate (length nss) {}) = Inr (flag, ecs)"
    by (auto simp: calculate_epsilon_closures_def split: sum.splits)
  from ec_for_inv[OF f ec_inv_init] show ?thesis by auto
qed

text \<open>
  C3. When the closure computation, started as \<^verbatim>\<open>nfa2dfa\<close> starts it with one empty set
  per state, completes without an error, the closure it has computed for a state index
  \<open>i\<close> is exactly the set of indices reachable from \<open>i\<close> by zero or more epsilon
  transitions, and \<open>i\<close> itself is in it.
\<close>

theorem closures_exact:
  assumes "calculate_epsilon_closures nss (replicate (length nss) {}) = Inr ecs" "i < length nss"
  shows "ecs ! i = {j. (int i, j) \<in> (eps_edges nss)\<^sup>*} \<and> int i \<in> ecs ! i"
proof -
  from calculate_epsilon_closures_inv[OF assms(1)] obtain flag where
    inv: "ec_inv nss flag ecs" and fl: "\<forall>i < length nss. flag ! i" by blast
  have "ecs ! nat (int i) = closure_of nss (int i)"
    by (rule ec_inv_eq[OF inv]) (use assms(2) fl in simp_all)
  then show ?thesis by (simp add: closure_of_def)
qed

theorem closures_exact_witness:
  "calculate_epsilon_closures (vec star_a) (replicate (length (vec star_a)) {}) =
     Inr [{0}, {0, 1, 2, 3}, {0, 2, 3}, {3}] \<and> (1 :: nat) < length (vec star_a) \<and>
   [{0}, {0, 1, 2, 3}, {0, 2, 3}, {3}] ! 1 = {j. (int 1, j) \<in> (eps_edges (vec star_a))\<^sup>*} \<and>
   int 1 \<in> [{0}, {0, 1, 2, 3}, {0, 2, 3}, {3 :: int}] ! 1"
proof -
  have h1: "calculate_epsilon_closures (vec star_a) (replicate (length (vec star_a)) {}) =
     Inr [{0}, {0, 1, 2, 3}, {0, 2, 3}, {3}]"
    by code_simp
  have h2: "(1 :: nat) < length (vec star_a)"
    by code_simp
  from closures_exact [OF h1 h2] h1 h2 show ?thesis
    by blast
qed

section \<open>Epsilon cycles stop the computation\<close>

definition targets_in_range :: "NFAState list \<Rightarrow> bool" where
  "targets_in_range nss \<longleftrightarrow>
     (\<forall>s \<in> set nss. rule s = RULE_EPSILON \<longrightarrow>
        (first s = REF_UNDEFINED \<or> in_range (first s) nss) \<and>
        (second s = REF_UNDEFINED \<or> in_range (second s) nss))"

lemma guard_throws:
  "length ecs < length stack \<Longrightarrow> ec_while nss flag ecs stack = Inl EpsilonInfiniteLoop"
  by (subst ec_while.simps) (auto simp: ec_body_def)

lemma visit_shape:
  "visit argi s flag ecs = Inr None \<Longrightarrow> in_range s flag"
  "visit argi s flag ecs = Inr (Some ecs1) \<Longrightarrow> length ecs1 = length ecs"
  by (auto simp: visit_def insert_closure_def split: if_splits sum.splits)

lemma finish_shape:
  "finish argi flag ecs stack = Inr (flag', ecs', stack') \<Longrightarrow>
     length flag' = length flag \<and> length ecs' = length ecs \<and> stack' = tl stack"
  by (auto simp: finish_def split: if_splits)

lemma set_tl_subset: "s \<in> set (tl xs) \<Longrightarrow> s \<in> set xs"
  by (cases xs) auto

lemma ec_body_shape:
  assumes "ec_body nss flag ecs stack = Inr (flag', ecs', stack')"
  shows "length flag' = length flag \<and> length ecs' = length ecs \<and>
         (\<forall>s \<in> set stack'. s \<in> set stack \<or> in_range s flag)"
  using assms
proof (cases rule: ec_body_Inr_cases)
  case push1
  then show ?thesis using visit_shape(1) by auto
next
  case (push2 ecs1)
  then show ?thesis using visit_shape by auto
next
  case (pop_eps ecs1 ecs2)
  from finish_shape[OF pop_eps(4)] visit_shape(2)[OF pop_eps(2)] visit_shape(2)[OF pop_eps(3)]
  show ?thesis by (auto dest: set_tl_subset)
next
  case pop_sym
  from finish_shape[OF pop_sym(2)] show ?thesis by (auto dest: set_tl_subset)
qed

lemma visit_no_error:
  assumes "length flag = length nss" "length ecs = length nss" "in_range argi nss"
    "s = REF_UNDEFINED \<or> in_range s nss"
  shows "visit argi s flag ecs \<noteq> Inl er"
  using assms by (auto simp: visit_def insert_closure_def in_range_def)

lemma finish_no_error:
  assumes "length flag = length nss" "length ecs = length nss" "in_range argi nss"
  shows "finish argi flag ecs stack \<noteq> Inl er"
  using assms by (auto simp: finish_def in_range_def)

lemma ec_body_error:
  assumes wf: "targets_in_range nss" and len: "length flag = length nss" "length ecs = length nss"
    and hd: "in_range (hd stack) nss"
    and b: "ec_body nss flag ecs stack = Inl er"
  shows "er = EpsilonInfiniteLoop"
proof (cases "length ecs < length stack")
  case True
  with b show ?thesis by (simp add: ec_body_def)
next
  case False
  let ?argi = "hd stack"
  show ?thesis
  proof (cases "rule (nss ! nat ?argi) = RULE_EPSILON")
    case sym: False
    with b False hd have "finish ?argi flag ecs stack = Inl er"
      by (simp add: ec_body_def Let_def)
    with finish_no_error[OF len hd] show ?thesis by blast
  next
    case eps: True
    from wf eps in_range_nat[OF hd]
    have t1: "first (nss ! nat ?argi) = REF_UNDEFINED \<or> in_range (first (nss ! nat ?argi)) nss"
      and t2: "second (nss ! nat ?argi) = REF_UNDEFINED \<or> in_range (second (nss ! nat ?argi)) nss"
      unfolding targets_in_range_def using nth_mem by blast+
    from b False hd eps have b': "(case visit ?argi (first (nss ! nat ?argi)) flag ecs of
             Inl er \<Rightarrow> Inl er
           | Inr None \<Rightarrow> Inr (flag, ecs, first (nss ! nat ?argi) # stack)
           | Inr (Some ecs1) \<Rightarrow>
               (case visit ?argi (second (nss ! nat ?argi)) flag ecs1 of
                  Inl er \<Rightarrow> Inl er
                | Inr None \<Rightarrow> Inr (flag, ecs1, second (nss ! nat ?argi) # stack)
                | Inr (Some ecs2) \<Rightarrow> finish ?argi flag ecs2 stack)) = Inl er"
      by (simp add: ec_body_def Let_def)
    show ?thesis
    proof (cases "visit ?argi (first (nss ! nat ?argi)) flag ecs")
      case (Inl e1)
      with visit_no_error[OF len hd t1] show ?thesis by blast
    next
      case (Inr r1)
      show ?thesis
      proof (cases r1)
        case None
        with Inr b' show ?thesis by simp
      next
        case (Some ecs1)
        have l1: "length ecs1 = length nss"
          using visit_shape(2)[of ?argi _ flag ecs ecs1] Inr Some len by simp
        from Inr Some b' have b2: "(case visit ?argi (second (nss ! nat ?argi)) flag ecs1 of
                  Inl er \<Rightarrow> Inl er
                | Inr None \<Rightarrow> Inr (flag, ecs1, second (nss ! nat ?argi) # stack)
                | Inr (Some ecs2) \<Rightarrow> finish ?argi flag ecs2 stack) = Inl er"
          by simp
        show ?thesis
        proof (cases "visit ?argi (second (nss ! nat ?argi)) flag ecs1")
          case (Inl e2)
          with visit_no_error[OF len(1) l1 hd t2] show ?thesis by blast
        next
          case r2: (Inr r2)
          show ?thesis
          proof (cases r2)
            case None
            with r2 b2 show ?thesis by simp
          next
            case s2: (Some ecs2)
            have l2: "length ecs2 = length nss"
              using visit_shape(2)[of ?argi _ flag ecs1 ecs2] r2 s2 l1 by simp
            from r2 s2 b2 have "finish ?argi flag ecs2 stack = Inl er" by simp
            with finish_no_error[OF len(1) l2 hd] show ?thesis by blast
          qed
        qed
      qed
    qed
  qed
qed

lemma ec_while_shape:
  assumes "ec_while nss flag ecs stack = Inr (flag', ecs')"
  shows "length flag' = length flag \<and> length ecs' = length ecs"
  using assms
proof (induction nss flag ecs stack rule: ec_while.induct)
  case (1 nss flag ecs stack)
  show ?case
  proof (cases "stack = []")
    case True
    with "1.prems" show ?thesis by (simp add: ec_while.simps)
  next
    case False
    with "1.prems"(1) obtain f1 e1 s1 where
      b: "ec_body nss flag ecs stack = Inr (f1, e1, s1)"
      and w: "ec_while nss f1 e1 s1 = Inr (flag', ecs')"
      by (subst (asm) ec_while.simps) (auto split: sum.splits)
    from "1.IH"[OF False b refl refl w] ec_body_shape[OF b] show ?thesis by simp
  qed
qed

lemma ec_while_error:
  assumes "targets_in_range nss" "length flag = length nss" "length ecs = length nss"
    "\<forall>s \<in> set stack. in_range s nss" "ec_while nss flag ecs stack = Inl er"
  shows "er = EpsilonInfiniteLoop"
  using assms
proof (induction nss flag ecs stack rule: ec_while.induct)
  case (1 nss flag ecs stack)
  have ne: "stack \<noteq> []" using "1.prems"(5) by (auto simp: ec_while.simps)
  then have hd: "in_range (hd stack) nss" using "1.prems"(4) by (cases stack) auto
  show ?case
  proof (cases "ec_body nss flag ecs stack")
    case (Inl e)
    with "1.prems"(5) ne have "e = er" by (subst (asm) ec_while.simps) simp
    with ec_body_error[OF "1.prems"(1-3) hd] Inl show ?thesis by blast
  next
    case (Inr r)
    obtain f1 e1 s1 where r: "r = (f1, e1, s1)" by (cases r)
    with Inr "1.prems"(5) ne have w: "ec_while nss f1 e1 s1 = Inl er"
      by (subst (asm) ec_while.simps) simp
    from ec_body_shape[of nss flag ecs stack f1 e1 s1] Inr r "1.prems"(2-4)
    have sh: "length f1 = length nss" "length e1 = length nss" "\<forall>s \<in> set s1. in_range s nss"
      using in_range_length[of flag nss] by auto
    from "1.IH"[OF ne _ _ _ "1.prems"(1) sh w] Inr r show ?thesis by simp
  qed
qed

lemma ec_for_error:
  assumes "targets_in_range nss" "length flag = length nss" "length ecs = length nss"
    "\<forall>i \<in> set is. i < length nss" "ec_for nss is flag ecs = Inl er"
  shows "er = EpsilonInfiniteLoop"
  using assms
proof (induction "is" arbitrary: flag ecs)
  case Nil
  then show ?case by simp
next
  case (Cons i "is")
  show ?case
  proof (cases "ec_while nss flag ecs [int i]")
    case (Inl e)
    with Cons.prems(5) have "e = er" by simp
    with ec_while_error[OF Cons.prems(1-3) _ Inl] Cons.prems(4) show ?thesis by simp
  next
    case (Inr r)
    obtain f1 e1 where r: "r = (f1, e1)" by (cases r)
    with Inr Cons.prems(5) have f: "ec_for nss is f1 e1 = Inl er" by simp
    from ec_while_shape[of nss flag ecs "[int i]" f1 e1] Inr r Cons.prems(2,3)
    have "length f1 = length nss" "length e1 = length nss" by simp_all
    from Cons.IH[OF Cons.prems(1) this _ f] Cons.prems(4) show ?thesis by simp
  qed
qed

lemma calculate_epsilon_closures_error:
  assumes "targets_in_range nss" "calculate_epsilon_closures nss (replicate (length nss) {}) = Inl er"
  shows "er = EpsilonInfiniteLoop"
proof -
  from assms(2) have "ec_for nss [0..<length nss] (replicate (length nss) False)
      (replicate (length nss) {}) = Inl er"
    by (auto simp: calculate_epsilon_closures_def split: sum.splits)
  from ec_for_error[OF assms(1) _ _ _ this] show ?thesis by simp
qed

lemma cycle_never_completes:
  assumes "(k, k) \<in> (eps_edges nss)\<^sup>+"
  shows "calculate_epsilon_closures nss (replicate (length nss) {}) \<noteq> Inr ecs"
proof
  assume "calculate_epsilon_closures nss (replicate (length nss) {}) = Inr ecs"
  from calculate_epsilon_closures_inv[OF this] obtain flag where
    inv: "ec_inv nss flag ecs" and fl: "\<forall>i < length nss. flag ! i" by blast
  from assms have "k \<in> Domain (eps_edges nss)" by (meson Domain.intros tranclD)
  then have kr: "in_range k nss" by (auto simp: eps_edges_iff)
  then have "flag ! nat k" using fl in_range_nat by blast
  from ec_inv_acyclic[OF inv kr this] assms show False by blast
qed

text \<open>
  C2. Whenever the body of the closure loop is entered with a stack longer than the
  closure table, which has one entry per state, the computation stops with the
  epsilon-loop error and returns no table. For a state sequence containing a state with
  an epsilon self-loop, the computation never returns a table; when all epsilon
  targets are indices of the sequence or undefined, it ends with the epsilon-loop
  error, and so does \<^verbatim>\<open>nfa2dfa\<close>. The loops are total functions, so the computation ends.
\<close>

theorem epsilon_cycle_aborts:
  "(length ecs < length stack \<longrightarrow> ec_while nss flag ecs stack = Inl EpsilonInfiniteLoop) \<and>
   (in_range k nss \<and> rule (nss ! nat k) = RULE_EPSILON \<and>
    (first (nss ! nat k) = k \<or> second (nss ! nat k) = k) \<longrightarrow>
      calculate_epsilon_closures nss (replicate (length nss) {}) \<noteq> Inr ecs' \<and>
      (targets_in_range nss \<longrightarrow>
         calculate_epsilon_closures nss (replicate (length nss) {}) = Inl EpsilonInfiniteLoop \<and>
         fst (nfa2dfa \<lparr>nfa = r, vec = nss\<rparr>) = Inl EpsilonInfiniteLoop))"
proof (intro conjI impI)
  assume "length ecs < length stack"
  then show "ec_while nss flag ecs stack = Inl EpsilonInfiniteLoop" by (rule guard_throws)
next
  assume k: "in_range k nss \<and> rule (nss ! nat k) = RULE_EPSILON \<and>
    (first (nss ! nat k) = k \<or> second (nss ! nat k) = k)"
  then have "k \<noteq> REF_UNDEFINED" by (auto simp: in_range_def REF_UNDEFINED_def)
  with k have "(k, k) \<in> eps_edges nss" by (auto simp: eps_edges_iff)
  then have cyc: "(k, k) \<in> (eps_edges nss)\<^sup>+" by blast
  show nr: "calculate_epsilon_closures nss (replicate (length nss) {}) \<noteq> Inr ecs'"
    using cycle_never_completes[OF cyc] .
  assume wf: "targets_in_range nss"
  show c: "calculate_epsilon_closures nss (replicate (length nss) {}) = Inl EpsilonInfiniteLoop"
  proof (cases "calculate_epsilon_closures nss (replicate (length nss) {})")
    case (Inl er)
    with calculate_epsilon_closures_error[OF wf Inl] show ?thesis by simp
  next
    case (Inr e)
    with cycle_never_completes[OF cyc] show ?thesis by blast
  qed
  then show "fst (nfa2dfa \<lparr>nfa = r, vec = nss\<rparr>) = Inl EpsilonInfiniteLoop"
    by (simp add: nfa2dfa_def subset_construction_def)
qed

theorem epsilon_cycle_aborts_witness:
  "length ([] :: int set list) < length [0 :: int] \<and>
   ec_while [\<lparr>rule = RULE_EPSILON, refs = (0, REF_UNDEFINED)\<rparr>] [False] [] [0] =
     Inl EpsilonInfiniteLoop \<and>
   in_range 0 [\<lparr>rule = RULE_EPSILON, refs = (0, REF_UNDEFINED)\<rparr>] \<and>
   targets_in_range [\<lparr>rule = RULE_EPSILON, refs = (0, REF_UNDEFINED)\<rparr>] \<and>
   calculate_epsilon_closures [\<lparr>rule = RULE_EPSILON, refs = (0, REF_UNDEFINED)\<rparr>]
     (replicate (length [\<lparr>rule = RULE_EPSILON, refs = (0, REF_UNDEFINED)\<rparr>]) {}) =
     Inl EpsilonInfiniteLoop \<and>
   fst (nfa2dfa \<lparr>nfa = \<lparr>start = 0, end' = 0\<rparr>,
                 vec = [\<lparr>rule = RULE_EPSILON, refs = (0, REF_UNDEFINED)\<rparr>]\<rparr>) =
     Inl EpsilonInfiniteLoop"
proof -
  let ?nss = "[\<lparr>rule = RULE_EPSILON, refs = (0, REF_UNDEFINED)\<rparr>]"
  have h1: "length ([] :: int set list) < length [0 :: int]"
    by simp
  have h2: "in_range 0 ?nss \<and> rule (?nss ! nat 0) = RULE_EPSILON \<and>
    (first (?nss ! nat 0) = 0 \<or> second (?nss ! nat 0) = 0)"
    by (simp add: in_range_def)
  have h3: "targets_in_range ?nss"
    by (simp add: targets_in_range_def in_range_def REF_UNDEFINED_def)
  from epsilon_cycle_aborts [of "[]" "[0]" ?nss "[False]" 0 "[]" "\<lparr>start = 0, end' = 0\<rparr>"] h1 h2 h3
  show ?thesis
    by blast
qed

section \<open>Runs of the automaton\<close>

lemma nfa_run_eps_star:
  assumes "(i, k) \<in> (eps_edges vs)\<^sup>*" "nfa_run vs k w j"
  shows "nfa_run vs i w j"
  using assms by (induction rule: converse_rtrancl_induct) (auto intro: nfa_run.eps)

lemma nfa_run_in_range: "nfa_run vs i w j \<Longrightarrow> in_range j vs"
  by (induction rule: nfa_run.induct) auto

lemma nfa_run_Nil: "nfa_run vs i [] j \<longleftrightarrow> in_range j vs \<and> (i, j) \<in> (eps_edges vs)\<^sup>*"
proof
  assume "nfa_run vs i [] j"
  then show "in_range j vs \<and> (i, j) \<in> (eps_edges vs)\<^sup>*"
  proof (induction i "[] :: cchar list" j rule: nfa_run.induct)
    case (stay i)
    then show ?case by simp
  next
    case (eps i k j)
    then show ?case by (auto intro: converse_rtrancl_into_rtrancl)
  qed
next
  assume "in_range j vs \<and> (i, j) \<in> (eps_edges vs)\<^sup>*"
  then show "nfa_run vs i [] j"
    using nfa_run_eps_star nfa_run.stay by blast
qed

lemma nfa_run_Cons:
  "nfa_run vs i (c # w) j \<longleftrightarrow>
     (\<exists>k m. (i, k) \<in> (eps_edges vs)\<^sup>* \<and> (k, m) \<in> sym_edges vs c \<and> nfa_run vs m w j)"
proof
  assume "nfa_run vs i (c # w) j"
  then show "\<exists>k m. (i, k) \<in> (eps_edges vs)\<^sup>* \<and> (k, m) \<in> sym_edges vs c \<and> nfa_run vs m w j"
  proof (induction i "c # w" j rule: nfa_run.induct)
    case (eps i k j)
    then show ?case by (meson converse_rtrancl_into_rtrancl)
  next
    case (sym i k j)
    then show ?case by blast
  qed
next
  assume "\<exists>k m. (i, k) \<in> (eps_edges vs)\<^sup>* \<and> (k, m) \<in> sym_edges vs c \<and> nfa_run vs m w j"
  then show "nfa_run vs i (c # w) j"
    using nfa_run_eps_star nfa_run.sym by blast
qed

definition reach :: "NFAState list \<Rightarrow> int set \<Rightarrow> cchar list \<Rightarrow> int set" where
  "reach vs D w = {j. \<exists>i \<in> D. nfa_run vs i w j}"

definition eps_closed :: "NFAState list \<Rightarrow> int set \<Rightarrow> bool" where
  "eps_closed vs D \<longleftrightarrow> (\<forall>i \<in> D. in_range i vs \<and> (\<forall>j. (i, j) \<in> (eps_edges vs)\<^sup>* \<longrightarrow> j \<in> D))"

definition sym_target :: "NFAState list \<Rightarrow> int set \<Rightarrow> cchar \<Rightarrow> int set" where
  "sym_target vs D c = {j. \<exists>k \<in> D. \<exists>m. (k, m) \<in> sym_edges vs c \<and> (m, j) \<in> (eps_edges vs)\<^sup>*}"

lemma reach_Nil: "eps_closed vs D \<Longrightarrow> reach vs D [] = D"
  unfolding reach_def eps_closed_def nfa_run_Nil by blast

lemma reach_Cons:
  assumes "eps_closed vs D"
  shows "reach vs D (c # w) = reach vs (sym_target vs D c) w"
proof
  show "reach vs D (c # w) \<subseteq> reach vs (sym_target vs D c) w"
  proof
    fix j assume "j \<in> reach vs D (c # w)"
    then obtain i k m where "i \<in> D" "(i, k) \<in> (eps_edges vs)\<^sup>*" "(k, m) \<in> sym_edges vs c"
      "nfa_run vs m w j"
      unfolding reach_def nfa_run_Cons by blast
    moreover from this assms have "k \<in> D" unfolding eps_closed_def by blast
    ultimately have "m \<in> sym_target vs D c" unfolding sym_target_def by blast
    with \<open>nfa_run vs m w j\<close> show "j \<in> reach vs (sym_target vs D c) w"
      unfolding reach_def by blast
  qed
  show "reach vs (sym_target vs D c) w \<subseteq> reach vs D (c # w)"
  proof
    fix j assume "j \<in> reach vs (sym_target vs D c) w"
    then obtain k m m' where "k \<in> D" "(k, m) \<in> sym_edges vs c" "(m, m') \<in> (eps_edges vs)\<^sup>*"
      "nfa_run vs m' w j"
      unfolding reach_def sym_target_def by blast
    then have "nfa_run vs k (c # w) j"
      using nfa_run_eps_star nfa_run.sym by blast
    with \<open>k \<in> D\<close> show "j \<in> reach vs D (c # w)" unfolding reach_def by blast
  qed
qed

lemma reach_empty: "reach vs {} w = {}"
  by (simp add: reach_def)

lemma accepts_reach:
  "nfa_accepts a w \<longleftrightarrow>
     end' (nfa a) \<in> reach (vec a) {j. (start (nfa a), j) \<in> (eps_edges (vec a))\<^sup>*} w"
  unfolding nfa_accepts_def reach_def using nfa_run_eps_star by blast

section \<open>One pass of subset construction\<close>

text \<open>
  What the first lambda leaves in the map: its keys are the symbols that rule some member
  of the DFA state, and the set stored under a key is the union of the closures of the
  targets of the members ruled by that key.
\<close>

definition is_symbol :: "cchar \<Rightarrow> bool" where
  "is_symbol c \<longleftrightarrow> c \<noteq> RULE_EPSILON \<and> c \<noteq> RULE_UNDEFINED"

definition val :: "('k \<times> int set) list \<Rightarrow> 'k \<Rightarrow> int set" where
  "val m c = (case map_of m c of None \<Rightarrow> {} | Some T \<Rightarrow> T)"

lemma val_Nil: "val [] c = {}"
  by (simp add: val_def)

lemma val_Cons: "val ((k, v) # m) c = (if c = k then v else val m c)"
  by (simp add: val_def)

lemma insert_at_keys: "fst ` set (insert_at k T m) = insert k (fst ` set m)"
  by (induction k T m rule: insert_at.induct) auto

lemma insert_at_distinct: "distinct (map fst m) \<Longrightarrow> distinct (map fst (insert_at k T m))"
proof (induction k T m rule: insert_at.induct)
  case (1 k s)
  then show ?case by simp
next
  case (2 k s k' v m)
  then show ?case using insert_at_keys[of k s m] by (auto simp: image_iff)
qed

lemma insert_at_val_same: "val (insert_at k T m) k = val m k \<union> T"
  by (induction k T m rule: insert_at.induct) (simp_all add: val_Nil val_Cons)

lemma insert_at_val_other: "c \<noteq> k \<Longrightarrow> val (insert_at k T m) c = val m c"
  by (induction k T m rule: insert_at.induct) (auto simp: val_Nil val_Cons)

lemma val_mem: "distinct (map fst m) \<Longrightarrow> (c, T) \<in> set m \<Longrightarrow> val m c = T"
  by (simp add: val_def)

definition contrib :: "NFAState list \<Rightarrow> int set list \<Rightarrow> int set \<Rightarrow> cchar \<Rightarrow> int set" where
  "contrib vs ecs D c =
     (\<Union>si \<in> {si \<in> D. rule (vs ! nat si) = c \<and> is_symbol c}. ecs ! nat (first (vs ! nat si)))"

definition symbols_of :: "NFAState list \<Rightarrow> int set \<Rightarrow> cchar set" where
  "symbols_of vs D = {rule (vs ! nat si) | si. si \<in> D \<and> is_symbol (rule (vs ! nat si))}"

lemma symbols_of_single:
  "symbols_of vs {si} = (if is_symbol (rule (vs ! nat si)) then {rule (vs ! nat si)} else {})"
  by (auto simp: symbols_of_def)

lemma contrib_single:
  "contrib vs ecs {si} c =
     (if rule (vs ! nat si) = c \<and> is_symbol c then ecs ! nat (first (vs ! nat si)) else {})"
  by (auto simp: contrib_def)

lemma symbols_of_insert: "symbols_of vs (insert si D) = symbols_of vs {si} \<union> symbols_of vs D"
  by (auto simp: symbols_of_def)

lemma contrib_insert: "contrib vs ecs (insert si D) c = contrib vs ecs {si} c \<union> contrib vs ecs D c"
  by (auto simp: contrib_def)

lemma collect_closure_cases:
  assumes "collect_closure vs ecs si m = Inr m'"
  obtains (skip) "in_range si vs" "\<not> is_symbol (rule (vs ! nat si))" "m' = m"
  | (add) "in_range si vs" "is_symbol (rule (vs ! nat si))" "in_range (first (vs ! nat si)) ecs"
      "m' = insert_at (rule (vs ! nat si)) (ecs ! nat (first (vs ! nat si))) m"
  using assms by (auto simp: collect_closure_def is_symbol_def split: if_splits)

lemma collect_closure_range:
  assumes "collect_closure vs ecs si m = Inr m'"
  shows "in_range si vs \<and> (is_symbol (rule (vs ! nat si)) \<longrightarrow> in_range (first (vs ! nat si)) ecs)"
  using assms by (cases rule: collect_closure_cases) simp_all

lemma collect_closure_distinct:
  assumes "collect_closure vs ecs si m = Inr m'" "distinct (map fst m)"
  shows "distinct (map fst m')"
  using assms by (cases rule: collect_closure_cases) (simp_all add: insert_at_distinct)

lemma collect_closure_keys:
  assumes "collect_closure vs ecs si m = Inr m'"
  shows "fst ` set m' = fst ` set m \<union> symbols_of vs {si}"
  using assms by (cases rule: collect_closure_cases) (simp_all add: insert_at_keys symbols_of_single)

lemma collect_closure_val:
  assumes "collect_closure vs ecs si m = Inr m'"
  shows "val m' c = val m c \<union> contrib vs ecs {si} c"
proof (cases "rule (vs ! nat si) = c \<and> is_symbol c")
  case True
  with assms have "m' = insert_at c (ecs ! nat (first (vs ! nat si))) m"
    by (cases rule: collect_closure_cases) simp_all
  with True show ?thesis
    by (simp add: insert_at_val_same contrib_single)
next
  case False
  from assms have "val m' c = val m c"
  proof (cases rule: collect_closure_cases)
    case skip
    then show ?thesis by simp
  next
    case add
    with False have "c \<noteq> rule (vs ! nat si)" by blast
    with add show ?thesis by (simp add: insert_at_val_other)
  qed
  moreover have "contrib vs ecs {si} c = {}"
    unfolding contrib_single using False by (rule if_not_P)
  ultimately show ?thesis
    by simp
qed

lemma for_each_collect_range:
  assumes "for_each L (collect_closure vs ecs) m = Inr m'" "si \<in> set L"
  shows "in_range si vs \<and> (is_symbol (rule (vs ! nat si)) \<longrightarrow> in_range (first (vs ! nat si)) ecs)"
  using assms
proof (induction L arbitrary: m)
  case Nil
  then show ?case by simp
next
  case (Cons x L)
  from Cons.prems(1) obtain m1 where
    s: "collect_closure vs ecs x m = Inr m1" and r: "for_each L (collect_closure vs ecs) m1 = Inr m'"
    by (auto split: sum.splits)
  show ?case
  proof (cases "si = x")
    case True
    then show ?thesis using collect_closure_range[OF s] by simp
  next
    case False
    then show ?thesis using Cons.IH[OF r] Cons.prems(2) by simp
  qed
qed

lemma for_each_collect_distinct:
  assumes "for_each L (collect_closure vs ecs) m = Inr m'" "distinct (map fst m)"
  shows "distinct (map fst m')"
  using assms
proof (induction L arbitrary: m)
  case Nil
  then show ?case by simp
next
  case (Cons x L)
  from Cons.prems(1) obtain m1 where
    s: "collect_closure vs ecs x m = Inr m1" and r: "for_each L (collect_closure vs ecs) m1 = Inr m'"
    by (auto split: sum.splits)
  from Cons.IH[OF r collect_closure_distinct[OF s Cons.prems(2)]] show ?case .
qed

lemma for_each_collect_keys:
  assumes "for_each L (collect_closure vs ecs) m = Inr m'"
  shows "fst ` set m' = fst ` set m \<union> symbols_of vs (set L)"
  using assms
proof (induction L arbitrary: m)
  case Nil
  then show ?case by (simp add: symbols_of_def)
next
  case (Cons x L)
  from Cons.prems(1) obtain m1 where
    s: "collect_closure vs ecs x m = Inr m1" and r: "for_each L (collect_closure vs ecs) m1 = Inr m'"
    by (auto split: sum.splits)
  have "fst ` set m' = fst ` set m1 \<union> symbols_of vs (set L)" using Cons.IH[OF r] .
  also have "fst ` set m1 = fst ` set m \<union> symbols_of vs {x}" using collect_closure_keys[OF s] .
  finally show ?case using symbols_of_insert[of vs x "set L"] by (simp add: Un_assoc)
qed

lemma for_each_collect_val:
  assumes "for_each L (collect_closure vs ecs) m = Inr m'"
  shows "val m' c = val m c \<union> contrib vs ecs (set L) c"
  using assms
proof (induction L arbitrary: m)
  case Nil
  then show ?case by (simp add: contrib_def)
next
  case (Cons x L)
  from Cons.prems(1) obtain m1 where
    s: "collect_closure vs ecs x m = Inr m1" and r: "for_each L (collect_closure vs ecs) m1 = Inr m'"
    by (auto split: sum.splits)
  have "val m' c = val m1 c \<union> contrib vs ecs (set L) c" using Cons.IH[OF r] .
  also have "val m1 c = val m c \<union> contrib vs ecs {x} c" using collect_closure_val[OF s] .
  finally show ?case using contrib_insert[of vs ecs x "set L" c] by (simp add: Un_assoc)
qed

lemma index_closure_spec:
  assumes "index_closure dsi cs (ds, recs) = (ds', recs')"
  shows "\<exists>new t. ds' = ds @ new \<and> t < length ds' \<and> ds' ! t = snd cs \<and>
           recs' = recs @ [\<lparr>from' = int dsi, rule' = fst cs, to' = int t\<rparr>]"
proof (cases "find_pos (snd cs) ds")
  case None
  with assms have "ds' = ds @ [snd cs]"
    "recs' = recs @ [\<lparr>from' = int dsi, rule' = fst cs, to' = int (length ds)\<rparr>]"
    by (auto simp: index_closure_def)
  then show ?thesis by (intro exI[of _ "[snd cs]"] exI[of _ "length ds"]) simp
next
  case (Some t)
  with assms have "ds' = ds" "recs' = recs @ [\<lparr>from' = int dsi, rule' = fst cs, to' = int t\<rparr>]"
    by (auto simp: index_closure_def)
  with find_pos_Some[OF Some] show ?thesis by (intro exI[of _ "[]"] exI[of _ t]) simp
qed

definition new_record :: "nat \<Rightarrow> int set list \<Rightarrow> (cchar \<times> int set) list \<Rightarrow> DFARefRecord \<Rightarrow> bool" where
  "new_record dsi ds L r \<longleftrightarrow>
     from' r = int dsi \<and> in_range (to' r) ds \<and> (rule' r, ds ! nat (to' r)) \<in> set L"

lemma new_record_extend:
  "new_record dsi ds L r \<Longrightarrow> new_record dsi (ds @ new) (cs # L) r"
  by (auto simp: new_record_def in_range_def nth_append)

lemma fold_index_closure_spec:
  assumes "fold (index_closure dsi) L (ds, recs) = (ds', recs')"
  shows "(\<exists>new. ds' = ds @ new) \<and> set recs \<subseteq> set recs' \<and>
     (\<forall>r \<in> set recs'. r \<in> set recs \<or> new_record dsi ds' L r) \<and>
     (\<forall>cs \<in> set L. \<exists>r \<in> set recs'. from' r = int dsi \<and> rule' r = fst cs)"
  using assms
proof (induction L arbitrary: ds recs)
  case Nil
  then show ?case by simp
next
  case (Cons cs L)
  obtain ds1 recs1 where s1: "index_closure dsi cs (ds, recs) = (ds1, recs1)"
    by (cases "index_closure dsi cs (ds, recs)")
  with Cons.prems have f: "fold (index_closure dsi) L (ds1, recs1) = (ds', recs')" by simp
  from index_closure_spec[OF s1] obtain n1 t where
    d1: "ds1 = ds @ n1" and t: "t < length ds1" "ds1 ! t = snd cs"
    and r1: "recs1 = recs @ [\<lparr>from' = int dsi, rule' = fst cs, to' = int t\<rparr>]"
    by blast
  let ?r0 = "\<lparr>from' = int dsi, rule' = fst cs, to' = int t\<rparr>"
  from Cons.IH[OF f] obtain new where
    d': "ds' = ds1 @ new" and sub: "set recs1 \<subseteq> set recs'"
    and old: "\<forall>r \<in> set recs'. r \<in> set recs1 \<or> new_record dsi ds' L r"
    and all: "\<forall>cs \<in> set L. \<exists>r \<in> set recs'. from' r = int dsi \<and> rule' r = fst cs"
    by blast
  have r0: "new_record dsi ds' (cs # L) ?r0"
    using t d' by (simp add: new_record_def nth_append)
  have 1: "\<exists>new. ds' = ds @ new" using d1 d' by simp
  have 2: "set recs \<subseteq> set recs'" using sub r1 by auto
  have 3: "\<forall>r \<in> set recs'. r \<in> set recs \<or> new_record dsi ds' (cs # L) r"
  proof
    fix r assume "r \<in> set recs'"
    with old have "r \<in> set recs1 \<or> new_record dsi ds' L r" by blast
    then show "r \<in> set recs \<or> new_record dsi ds' (cs # L) r"
    proof
      assume "r \<in> set recs1"
      then have "r \<in> set recs \<or> r = ?r0" using r1 by auto
      then show ?thesis using r0 by blast
    next
      assume "new_record dsi ds' L r"
      then show ?thesis using new_record_extend[of dsi ds' L r "[]" cs] by simp
    qed
  qed
  have "?r0 \<in> set recs'" using sub r1 by auto
  then have 4: "\<forall>x \<in> set (cs # L). \<exists>r \<in> set recs'. from' r = int dsi \<and> rule' r = fst x"
    using all by (auto intro: bexI[of _ ?r0])
  from 1 2 3 4 show ?case by blast
qed

definition closures_ok :: "NFAState list \<Rightarrow> int set list \<Rightarrow> bool" where
  "closures_ok vs ecs \<longleftrightarrow>
     length ecs = length vs \<and>
     (\<forall>i. in_range i vs \<longrightarrow>
        ecs ! nat i = closure_of vs i \<and> (\<forall>j \<in> closure_of vs i. in_range j vs))"

lemma calculate_closures_ok:
  assumes "calculate_epsilon_closures vs (replicate (length vs) {}) = Inr ecs"
  shows "closures_ok vs ecs"
proof -
  from calculate_epsilon_closures_inv[OF assms] obtain flag where
    inv: "ec_inv vs flag ecs" and fl: "\<forall>i < length vs. flag ! i" by blast
  have "ecs ! nat i = closure_of vs i \<and> (\<forall>j \<in> closure_of vs i. in_range j vs)"
    if i: "in_range i vs" for i
  proof -
    have f: "flag ! nat i" using fl in_range_nat[OF i] by blast
    have "in_range j vs" if "j \<in> closure_of vs i" for j
      using flagged_closed[OF inv _ i f, of j] that by (simp add: closure_of_def)
    then show ?thesis using ec_inv_eq[OF inv i f] by blast
  qed
  then show ?thesis using ec_inv_len[OF inv] unfolding closures_ok_def by blast
qed

definition has_sym :: "NFAState list \<Rightarrow> int set \<Rightarrow> cchar \<Rightarrow> bool" where
  "has_sym vs D c \<longleftrightarrow> (\<exists>k \<in> D. \<exists>m. (k, m) \<in> sym_edges vs c)"

lemma sym_edges_iff:
  "(k, m) \<in> sym_edges vs c \<longleftrightarrow>
     in_range k vs \<and> rule (vs ! nat k) = c \<and> is_symbol c \<and> m = first (vs ! nat k)"
  by (auto simp: sym_edges_def is_symbol_def)

lemma symbols_of_sem:
  assumes "\<forall>si \<in> D. in_range si vs"
  shows "c \<in> symbols_of vs D \<longleftrightarrow> has_sym vs D c"
  using assms unfolding symbols_of_def has_sym_def sym_edges_iff by blast

definition members_ok :: "NFAState list \<Rightarrow> int set list \<Rightarrow> int set \<Rightarrow> bool" where
  "members_ok vs ecs D \<longleftrightarrow>
     (\<forall>si \<in> D. in_range si vs \<and>
        (is_symbol (rule (vs ! nat si)) \<longrightarrow> in_range (first (vs ! nat si)) ecs))"

lemma contrib_sem:
  assumes ok: "closures_ok vs ecs" and m: "members_ok vs ecs D"
  shows "contrib vs ecs D c = sym_target vs D c"
proof -
  have e: "ecs ! nat (first (vs ! nat si)) = {j. (first (vs ! nat si), j) \<in> (eps_edges vs)\<^sup>*}"
    if "si \<in> D" "is_symbol (rule (vs ! nat si))" for si
  proof -
    from m that have "in_range (first (vs ! nat si)) ecs" unfolding members_ok_def by blast
    then have "in_range (first (vs ! nat si)) vs"
      using ok in_range_length[of ecs vs] unfolding closures_ok_def by blast
    then show ?thesis using ok unfolding closures_ok_def closure_of_def by blast
  qed
  show ?thesis
  proof
    show "contrib vs ecs D c \<subseteq> sym_target vs D c"
    proof
      fix j assume "j \<in> contrib vs ecs D c"
      then obtain si where si: "si \<in> D" "rule (vs ! nat si) = c" "is_symbol c"
        "j \<in> ecs ! nat (first (vs ! nat si))"
        unfolding contrib_def by blast
      then have "(first (vs ! nat si), j) \<in> (eps_edges vs)\<^sup>*" using e[of si] by simp
      moreover have "(si, first (vs ! nat si)) \<in> sym_edges vs c"
        using si m unfolding members_ok_def sym_edges_iff by blast
      ultimately show "j \<in> sym_target vs D c" using si(1) unfolding sym_target_def by blast
    qed
    show "sym_target vs D c \<subseteq> contrib vs ecs D c"
    proof
      fix j assume "j \<in> sym_target vs D c"
      then obtain k m where k: "k \<in> D" "(k, m) \<in> sym_edges vs c" "(m, j) \<in> (eps_edges vs)\<^sup>*"
        unfolding sym_target_def by blast
      then have r: "rule (vs ! nat k) = c" "is_symbol c" "m = first (vs ! nat k)"
        unfolding sym_edges_iff by simp_all
      then have "j \<in> ecs ! nat (first (vs ! nat k))" using e[of k] k by simp
      then show "j \<in> contrib vs ecs D c" using k(1) r unfolding contrib_def by blast
    qed
  qed
qed

lemma sym_target_closed:
  assumes ok: "closures_ok vs ecs" and m: "members_ok vs ecs D"
  shows "eps_closed vs (sym_target vs D c)"
  unfolding eps_closed_def
proof (intro ballI conjI allI impI)
  fix j assume "j \<in> sym_target vs D c"
  then obtain k m' where k: "k \<in> D" "(k, m') \<in> sym_edges vs c" "(m', j) \<in> (eps_edges vs)\<^sup>*"
    unfolding sym_target_def by blast
  then have "is_symbol (rule (vs ! nat k))" "m' = first (vs ! nat k)"
    unfolding sym_edges_iff by simp_all
  with m k(1) have "in_range m' ecs" unfolding members_ok_def by blast
  then have mr: "in_range m' vs"
    using ok in_range_length[of ecs vs] unfolding closures_ok_def by blast
  then show "in_range j vs" using ok k(3) unfolding closures_ok_def closure_of_def by blast
  fix j' assume "(j, j') \<in> (eps_edges vs)\<^sup>*"
  with k(3) have "(m', j') \<in> (eps_edges vs)\<^sup>*" by simp
  with k show "j' \<in> sym_target vs D c" unfolding sym_target_def by blast
qed

lemma closure_closed:
  assumes "closures_ok vs ecs" "in_range i vs"
  shows "eps_closed vs (ecs ! nat i)"
proof -
  from assms have e: "ecs ! nat i = closure_of vs i" "\<forall>j \<in> closure_of vs i. in_range j vs"
    unfolding closures_ok_def by blast+
  show ?thesis
    unfolding eps_closed_def e(1) using e(2) by (auto simp: closure_of_def)
qed

lemma finite_in_range: "finite {j. in_range j vs}"
proof -
  have "{j. in_range j vs} = {0..<int (length vs)}" by (auto simp: in_range_def)
  then show ?thesis by simp
qed

lemma eps_closed_finite: "eps_closed vs D \<Longrightarrow> finite D"
  by (rule finite_subset[OF _ finite_in_range[of vs]]) (auto simp: eps_closed_def)

definition rec_ok :: "NFAState list \<Rightarrow> int set list \<Rightarrow> DFARefRecord \<Rightarrow> bool" where
  "rec_ok vs ds r \<longleftrightarrow>
     in_range (from' r) ds \<and> in_range (to' r) ds \<and>
     has_sym vs (ds ! nat (from' r)) (rule' r) \<and>
     ds ! nat (to' r) = sym_target vs (ds ! nat (from' r)) (rule' r)"

lemma in_range_append: "in_range i xs \<Longrightarrow> in_range i (xs @ ys)"
  by (simp add: in_range_def)

lemma nth_append_in_range: "in_range i xs \<Longrightarrow> (xs @ ys) ! nat i = xs ! nat i"
  by (simp add: nth_append in_range_nat)

lemma rec_ok_append: "rec_ok vs ds r \<Longrightarrow> rec_ok vs (ds @ new) r"
  by (simp add: rec_ok_def in_range_append nth_append_in_range)

lemma dfa_body_spec:
  assumes ok: "closures_ok vs ecs" and dsi: "dsi < length ds" and cl: "eps_closed vs (ds ! dsi)"
    and b: "dfa_body vs ecs dsi ds recs = Inr (ds', recs')"
  shows "(\<exists>new. ds' = ds @ new \<and> (\<forall>T \<in> set new. eps_closed vs T)) \<and> set recs \<subseteq> set recs' \<and>
     (\<forall>r \<in> set recs'. r \<in> set recs \<or> (from' r = int dsi \<and> rec_ok vs ds' r)) \<and>
     (\<forall>c. has_sym vs (ds ! dsi) c \<longrightarrow> (\<exists>r \<in> set recs'. from' r = int dsi \<and> rule' r = c))"
proof -
  let ?D = "ds ! dsi"
  from b obtain chc where
    chc: "for_each (sorted_list_of_set ?D) (collect_closure vs ecs) [] = Inr chc"
    and f: "fold (index_closure dsi) (in_key_order chc) (ds, recs) = (ds', recs')"
    by (auto simp: dfa_body_def split: sum.splits)
  have sD: "set (sorted_list_of_set ?D) = ?D"
    using eps_closed_finite[OF cl] by simp
  have m: "members_ok vs ecs ?D"
    unfolding members_ok_def using for_each_collect_range[OF chc] sD by blast
  have dist: "distinct (map fst chc)"
    using for_each_collect_distinct[OF chc] by simp
  have keys: "fst ` set chc = symbols_of vs ?D"
    using for_each_collect_keys[OF chc] sD by simp
  have vals: "val chc c = sym_target vs ?D c" for c
    using for_each_collect_val[OF chc, of c] sD contrib_sem[OF ok m] by (simp add: val_Nil)
  have inr: "\<forall>si \<in> ?D. in_range si vs" using m unfolding members_ok_def by blast
  have entry: "has_sym vs ?D c \<and> T = sym_target vs ?D c" if "(c, T) \<in> set chc" for c T
  proof -
    have "c \<in> fst ` set chc" using that by force
    then have "has_sym vs ?D c" using keys symbols_of_sem[OF inr] by simp
    moreover have "T = sym_target vs ?D c" using val_mem[OF dist that] vals by simp
    ultimately show ?thesis by simp
  qed
  have sL: "set (in_key_order chc) = set chc" by (simp add: in_key_order_def)
  from fold_index_closure_states[OF f] obtain new where
    new: "ds' = ds @ new" "set new \<subseteq> snd ` set (in_key_order chc) - set ds" by blast
  have ncl: "\<forall>T \<in> set new. eps_closed vs T"
  proof
    fix T assume "T \<in> set new"
    with new(2) sL obtain c where "(c, T) \<in> set chc" by force
    then have "T = sym_target vs ?D c" using entry by blast
    then show "eps_closed vs T" using sym_target_closed[OF ok m] by simp
  qed
  note sp = fold_index_closure_spec[OF f]
  have D': "ds' ! dsi = ?D" using new(1) dsi by (simp add: nth_append)
  have 3: "\<forall>r \<in> set recs'. r \<in> set recs \<or> (from' r = int dsi \<and> rec_ok vs ds' r)"
  proof
    fix r assume "r \<in> set recs'"
    with sp have "r \<in> set recs \<or> new_record dsi ds' (in_key_order chc) r" by blast
    then show "r \<in> set recs \<or> (from' r = int dsi \<and> rec_ok vs ds' r)"
    proof
      assume "new_record dsi ds' (in_key_order chc) r"
      then have fr: "from' r = int dsi" and tr: "in_range (to' r) ds'"
        and e: "(rule' r, ds' ! nat (to' r)) \<in> set chc"
        using sL by (simp_all add: new_record_def)
      have "in_range (from' r) ds'" using fr dsi new(1) by simp
      then have "rec_ok vs ds' r"
        unfolding rec_ok_def using tr entry[OF e] fr D' by simp
      with fr show ?thesis by simp
    qed simp
  qed
  have 4: "\<forall>c. has_sym vs ?D c \<longrightarrow> (\<exists>r \<in> set recs'. from' r = int dsi \<and> rule' r = c)"
  proof (intro allI impI)
    fix c assume "has_sym vs ?D c"
    then have "c \<in> fst ` set chc" using keys symbols_of_sem[OF inr] by simp
    then obtain cs where "cs \<in> set (in_key_order chc)" "fst cs = c" using sL by auto
    with sp show "\<exists>r \<in> set recs'. from' r = int dsi \<and> rule' r = c" by blast
  qed
  from new(1) ncl sp 3 4 show ?thesis by blast
qed

section \<open>The table of DFA states\<close>

text \<open>
  The invariant of the outer loop: every set in the table is closed under epsilon
  transitions; every record leads from a processed state, on a symbol that rules one of
  its members, to the state whose set is the symbol's target set; and every such symbol
  of a processed state has a record.
\<close>

definition dfa_inv ::
  "NFAState list \<Rightarrow> int set \<Rightarrow> nat \<Rightarrow> int set list \<Rightarrow> DFARefRecord list \<Rightarrow> bool" where
  "dfa_inv vs d0 dsi ds recs \<longleftrightarrow>
     ds \<noteq> [] \<and> ds ! 0 = d0 \<and> dsi \<le> length ds \<and>
     (\<forall>D \<in> set ds. eps_closed vs D) \<and>
     (\<forall>r \<in> set recs. nat (from' r) < dsi \<and> rec_ok vs ds r) \<and>
     (\<forall>q < dsi. \<forall>c. has_sym vs (ds ! q) c \<longrightarrow>
        (\<exists>r \<in> set recs. from' r = int q \<and> rule' r = c))"

lemma dfa_inv_step:
  assumes ok: "closures_ok vs ecs" and inv: "dfa_inv vs d0 dsi ds recs" and dsi: "dsi < length ds"
    and b: "dfa_body vs ecs dsi ds recs = Inr (ds1, recs1)"
  shows "dfa_inv vs d0 (Suc dsi) ds1 recs1"
proof -
  from inv have ne: "ds \<noteq> []" and d0: "ds ! 0 = d0"
    and cl: "\<forall>D \<in> set ds. eps_closed vs D"
    and rs: "\<forall>r \<in> set recs. nat (from' r) < dsi \<and> rec_ok vs ds r"
    and cov: "\<forall>q < dsi. \<forall>c. has_sym vs (ds ! q) c \<longrightarrow>
        (\<exists>r \<in> set recs. from' r = int q \<and> rule' r = c)"
    unfolding dfa_inv_def by blast+
  have "eps_closed vs (ds ! dsi)" using cl dsi by simp
  from dfa_body_spec[OF ok dsi this b] obtain new where
    new: "ds1 = ds @ new" "\<forall>T \<in> set new. eps_closed vs T" and sub: "set recs \<subseteq> set recs1"
    and nr: "\<forall>r \<in> set recs1. r \<in> set recs \<or> (from' r = int dsi \<and> rec_ok vs ds1 r)"
    and nc: "\<forall>c. has_sym vs (ds ! dsi) c \<longrightarrow> (\<exists>r \<in> set recs1. from' r = int dsi \<and> rule' r = c)"
    by blast
  have old: "ds1 ! q = ds ! q" if "q < length ds" for q
    using that new(1) by (simp add: nth_append)
  show ?thesis
    unfolding dfa_inv_def
  proof (intro conjI ballI allI impI)
    show "ds1 \<noteq> []" using ne new(1) by simp
    show "ds1 ! 0 = d0" using old[of 0] ne d0 by simp
    show "Suc dsi \<le> length ds1" using dsi new(1) by simp
  next
    fix D assume "D \<in> set ds1"
    then show "eps_closed vs D" using new cl by auto
  next
    fix r assume r: "r \<in> set recs1"
    from nr r have "r \<in> set recs \<or> (from' r = int dsi \<and> rec_ok vs ds1 r)" by blast
    then have "nat (from' r) < Suc dsi \<and> rec_ok vs ds1 r"
    proof
      assume "r \<in> set recs"
      with rs have "nat (from' r) < dsi" "rec_ok vs ds r" by blast+
      then show ?thesis using rec_ok_append[of vs ds r new] new(1) by simp
    next
      assume "from' r = int dsi \<and> rec_ok vs ds1 r"
      then show ?thesis by simp
    qed
    then show "nat (from' r) < Suc dsi" "rec_ok vs ds1 r" by simp_all
  next
    fix q c assume q: "q < Suc dsi" and h: "has_sym vs (ds1 ! q) c"
    have e: "ds1 ! q = ds ! q" using old[of q] q dsi by simp
    show "\<exists>r \<in> set recs1. from' r = int q \<and> rule' r = c"
    proof (cases "q = dsi")
      case True
      then show ?thesis using nc h e by simp
    next
      case False
      with q have "q < dsi" by simp
      with cov h e obtain r where "r \<in> set recs" "from' r = int q \<and> rule' r = c" by auto
      then show ?thesis using sub by blast
    qed
  qed
qed

lemma dfa_loop_spec:
  assumes ok: "closures_ok vs ecs" and s0: "in_range s0 vs"
    and l: "dfa_loop vs ecs 0 [ecs ! nat s0] [] = Inr (ds, recs)"
  shows "dfa_inv vs (closure_of vs s0) (length ds) ds recs"
proof -
  have d0: "ecs ! nat s0 = closure_of vs s0" using ok s0 unfolding closures_ok_def by blast
  have init: "dfa_inv vs (closure_of vs s0) 0 [ecs ! nat s0] []"
    unfolding dfa_inv_def using closure_closed[OF ok s0] d0 by simp
  from dfa_loop_invariant[OF l, where I = "dfa_inv vs (closure_of vs s0)", OF init]
    dfa_inv_step[OF ok]
  obtain dsi' where i: "dfa_inv vs (closure_of vs s0) dsi' ds recs" and le: "length ds \<le> dsi'"
    by blast
  from i have "dsi' \<le> length ds" unfolding dfa_inv_def by blast
  with le i show ?thesis by simp
qed

section \<open>The automaton built from the table\<close>

lemma mark_ends_fold:
  "k \<le> length d \<Longrightarrow>
   length (fold (\<lambda>i d. d[i := (d ! i)\<lparr>is_end := e \<in> ds ! i\<rparr>]) [0..<k] d) = length d \<and>
   (\<forall>i < length d.
      fold (\<lambda>i d. d[i := (d ! i)\<lparr>is_end := e \<in> ds ! i\<rparr>]) [0..<k] d ! i =
      (if i < k then (d ! i)\<lparr>is_end := e \<in> ds ! i\<rparr> else d ! i))"
proof (induction k)
  case 0
  then show ?case by simp
next
  case (Suc k)
  then have IH: "length (fold (\<lambda>i d. d[i := (d ! i)\<lparr>is_end := e \<in> ds ! i\<rparr>]) [0..<k] d) = length d"
    "\<And>i. i < length d \<Longrightarrow>
      fold (\<lambda>i d. d[i := (d ! i)\<lparr>is_end := e \<in> ds ! i\<rparr>]) [0..<k] d ! i =
      (if i < k then (d ! i)\<lparr>is_end := e \<in> ds ! i\<rparr> else d ! i)"
    by simp_all
  from Suc.prems have k: "k < length d" by simp
  show ?case
    using IH k by (auto simp: nth_list_update less_Suc_eq)
qed

lemma mark_ends_spec:
  "length (mark_ends ds e (DFA_init n)) = n \<and>
   (\<forall>i < n. is_end (mark_ends ds e (DFA_init n) ! i) = (e \<in> ds ! i) \<and>
             refs (mark_ends ds e (DFA_init n) ! i) = [])"
  using mark_ends_fold[of n "DFA_init n" e ds]
  by (simp add: mark_ends_def DFA_init_def)

lemma map_of_emplace:
  "map_of (emplace k v m) c = (if c = k \<and> map_of m k = None then Some v else map_of m c)"
  by (auto simp: emplace_def map_add_def split: option.splits)

lemma add_record_nth:
  assumes "add_record r d = Inr d'" "q < length d"
  shows "d' ! q = (if int q = from' r
                   then (d ! q)\<lparr>refs := emplace (rule' r) (to' r) (refs (d ! q))\<rparr> else d ! q)"
proof -
  from assms have r: "in_range (from' r) d"
    and d': "d' = d[nat (from' r) :=
                  (d ! nat (from' r))\<lparr>refs := emplace (rule' r) (to' r) (refs (d ! nat (from' r)))\<rparr>]"
    by (auto simp: add_record_def split: if_splits)
  have eq: "int q = from' r \<longleftrightarrow> nat (from' r) = q"
    using r unfolding in_range_def by linarith
  show ?thesis
  proof (cases "int q = from' r")
    case True
    then have "nat (from' r) = q" using eq by simp
    with True assms(2) show ?thesis unfolding d' by simp
  next
    case False
    then have "nat (from' r) \<noteq> q" using eq by simp
    with False show ?thesis unfolding d' by simp
  qed
qed

lemma add_record_spec:
  assumes "add_record r d = Inr d'"
  shows "length d' = length d \<and>
     (\<forall>q < length d. is_end (d' ! q) = is_end (d ! q) \<and>
        (\<forall>c. map_of (refs (d' ! q)) c =
           (if int q = from' r \<and> c = rule' r \<and> map_of (refs (d ! q)) c = None
            then Some (to' r) else map_of (refs (d ! q)) c)))"
proof (intro conjI allI impI)
  show "length d' = length d"
    using assms by (auto simp: add_record_def split: if_splits)
next
  fix q assume q: "q < length d"
  show "is_end (d' ! q) = is_end (d ! q)"
    using add_record_nth[OF assms q] by simp
  fix c
  show "map_of (refs (d' ! q)) c =
           (if int q = from' r \<and> c = rule' r \<and> map_of (refs (d ! q)) c = None
            then Some (to' r) else map_of (refs (d ! q)) c)"
  proof (cases "int q = from' r")
    case True
    then have "refs (d' ! q) = emplace (rule' r) (to' r) (refs (d ! q))"
      using add_record_nth[OF assms q] by simp
    with True show ?thesis by (auto simp: map_of_emplace)
  next
    case False
    then show ?thesis using add_record_nth[OF assms q] by simp
  qed
qed

lemma for_each_add_record:
  assumes "for_each recs add_record d = Inr d'"
  shows "length d' = length d \<and>
     (\<forall>q < length d. is_end (d' ! q) = is_end (d ! q) \<and>
        (\<forall>c t. map_of (refs (d ! q)) c = Some t \<longrightarrow> map_of (refs (d' ! q)) c = Some t) \<and>
        (\<forall>c t. map_of (refs (d' ! q)) c = Some t \<longrightarrow>
           map_of (refs (d ! q)) c = Some t \<or>
           (\<exists>r \<in> set recs. from' r = int q \<and> rule' r = c \<and> to' r = t)) \<and>
        (\<forall>r \<in> set recs. from' r = int q \<longrightarrow> map_of (refs (d' ! q)) (rule' r) \<noteq> None))"
  using assms
proof (induction recs arbitrary: d)
  case Nil
  then show ?case by simp
next
  case (Cons r recs)
  from Cons.prems obtain d1 where
    a: "add_record r d = Inr d1" and f: "for_each recs add_record d1 = Inr d'"
    by (auto split: sum.splits)
  note s = add_record_spec[OF a]
  note ih = Cons.IH[OF f]
  from s have len: "length d1 = length d" by simp
  show ?case
  proof (intro conjI allI impI ballI)
    show "length d' = length d" using ih len by simp
  next
    fix q assume q: "q < length d"
    then have q1: "q < length d1" using len by simp
    show "is_end (d' ! q) = is_end (d ! q)" using ih s q q1 by simp
  next
    fix q c t assume q: "q < length d" and m: "map_of (refs (d ! q)) c = Some t"
    then have q1: "q < length d1" using len by simp
    have "map_of (refs (d1 ! q)) c = Some t" using s q m by simp
    then show "map_of (refs (d' ! q)) c = Some t" using ih q1 by blast
  next
    fix q c t assume q: "q < length d" and m: "map_of (refs (d' ! q)) c = Some t"
    then have q1: "q < length d1" using len by simp
    from ih q1 m have "map_of (refs (d1 ! q)) c = Some t \<or>
           (\<exists>r \<in> set recs. from' r = int q \<and> rule' r = c \<and> to' r = t)" by blast
    then show "map_of (refs (d ! q)) c = Some t \<or>
           (\<exists>r \<in> set (r # recs). from' r = int q \<and> rule' r = c \<and> to' r = t)"
    proof
      assume m1: "map_of (refs (d1 ! q)) c = Some t"
      show ?thesis
      proof (cases "int q = from' r \<and> c = rule' r \<and> map_of (refs (d ! q)) c = None")
        case True
        from s q have "map_of (refs (d1 ! q)) c =
           (if int q = from' r \<and> c = rule' r \<and> map_of (refs (d ! q)) c = None
            then Some (to' r) else map_of (refs (d ! q)) c)" by blast
        with True have "map_of (refs (d1 ! q)) c = Some (to' r)" by auto
        with m1 have "to' r = t" by simp
        with True show ?thesis by simp
      next
        case False
        with s q m1 have "map_of (refs (d ! q)) c = Some t" by auto
        then show ?thesis by simp
      qed
    next
      assume "\<exists>r \<in> set recs. from' r = int q \<and> rule' r = c \<and> to' r = t"
      then show ?thesis by auto
    qed
  next
    fix q x assume q: "q < length d" and x: "x \<in> set (r # recs)" "from' x = int q"
    then have q1: "q < length d1" using len by simp
    show "map_of (refs (d' ! q)) (rule' x) \<noteq> None"
    proof (cases "x = r")
      case True
      with s q x have "map_of (refs (d1 ! q)) (rule' r) \<noteq> None" by auto
      then obtain t where "map_of (refs (d1 ! q)) (rule' r) = Some t" by blast
      then have "map_of (refs (d' ! q)) (rule' r) = Some t" using ih q1 by blast
      with True show ?thesis by simp
    next
      case False
      with x have "x \<in> set recs" by simp
      then show ?thesis using ih q1 x(2) by blast
    qed
  qed
qed

lemma construct_dfa_spec:
  assumes "construct_dfa e ds recs = Inr dfa"
  shows "length dfa = length ds \<and>
     (\<forall>q < length ds. is_end (dfa ! q) = (e \<in> ds ! q) \<and>
        (\<forall>c t. map_of (refs (dfa ! q)) c = Some t \<longrightarrow>
           (\<exists>r \<in> set recs. from' r = int q \<and> rule' r = c \<and> to' r = t)) \<and>
        (\<forall>r \<in> set recs. from' r = int q \<longrightarrow> map_of (refs (dfa ! q)) (rule' r) \<noteq> None))"
proof -
  let ?d0 = "mark_ends ds e (DFA_init (length ds))"
  from assms have f: "for_each recs add_record ?d0 = Inr dfa"
    by (simp add: construct_dfa_def)
  note m = mark_ends_spec[of ds e "length ds"]
  note a = for_each_add_record[OF f]
  from m have len: "length ?d0 = length ds" by simp
  show ?thesis
  proof (intro conjI allI impI ballI)
    show "length dfa = length ds" using a len by simp
  next
    fix q assume q: "q < length ds"
    then show "is_end (dfa ! q) = (e \<in> ds ! q)" using a m len by simp
  next
    fix q c t assume q: "q < length ds" and mm: "map_of (refs (dfa ! q)) c = Some t"
    have "map_of (refs (?d0 ! q)) c = None" using m q by simp
    moreover have "map_of (refs (?d0 ! q)) c = Some t \<or>
           (\<exists>r \<in> set recs. from' r = int q \<and> rule' r = c \<and> to' r = t)"
      using a q len mm by auto
    ultimately show "\<exists>r \<in> set recs. from' r = int q \<and> rule' r = c \<and> to' r = t" by simp
  next
    fix q r assume "q < length ds" "r \<in> set recs" "from' r = int q"
    then show "map_of (refs (dfa ! q)) (rule' r) \<noteq> None" using a len by auto
  qed
qed

section \<open>The DFA follows the runs of the NFA\<close>

lemma sym_target_empty: "\<not> has_sym vs D c \<Longrightarrow> sym_target vs D c = {}"
  unfolding has_sym_def sym_target_def by blast

lemma dfa_simulates:
  assumes inv: "dfa_inv vs d0 (length ds) ds recs" and c: "construct_dfa e ds recs = Inr dfa"
    and q: "q < length ds"
  shows "case dfa_run dfa (int q) w of
           None \<Rightarrow> reach vs (ds ! q) w = {}
         | Some t \<Rightarrow> in_range t ds \<and> ds ! nat t = reach vs (ds ! q) w"
  using q
proof (induction w arbitrary: q)
  case Nil
  have "eps_closed vs (ds ! q)" using inv Nil unfolding dfa_inv_def by simp
  then have "reach vs (ds ! q) [] = ds ! q" by (rule reach_Nil)
  moreover have "in_range (int q) dfa" using construct_dfa_spec[OF c] Nil by simp
  ultimately show ?case using Nil by simp
next
  case (Cons x w)
  note sp = construct_dfa_spec[OF c]
  have qr: "in_range (int q) dfa" using sp Cons.prems by simp
  have cl: "eps_closed vs (ds ! q)" using inv Cons.prems unfolding dfa_inv_def by simp
  have rc: "reach vs (ds ! q) (x # w) = reach vs (sym_target vs (ds ! q) x) w"
    using reach_Cons[OF cl] .
  show ?case
  proof (cases "map_of (refs (dfa ! q)) x")
    case None
    have "\<not> has_sym vs (ds ! q) x"
    proof
      assume "has_sym vs (ds ! q) x"
      with inv Cons.prems obtain r where "r \<in> set recs" "from' r = int q" "rule' r = x"
        unfolding dfa_inv_def by blast
      with sp Cons.prems have "map_of (refs (dfa ! q)) x \<noteq> None" by blast
      with None show False by simp
    qed
    then have "reach vs (ds ! q) (x # w) = {}"
      using rc sym_target_empty reach_empty by simp
    with None qr show ?thesis by simp
  next
    case (Some t)
    with sp Cons.prems obtain r where r: "r \<in> set recs" "from' r = int q" "rule' r = x" "to' r = t"
      by blast
    with inv have "rec_ok vs ds r" unfolding dfa_inv_def by blast
    with r have t: "in_range t ds" "ds ! nat t = sym_target vs (ds ! q) x"
      unfolding rec_ok_def by simp_all
    have nt: "nat t < length ds" "int (nat t) = t"
      using t(1) in_range_nat by (simp_all add: in_range_def)
    have e: "reach vs (ds ! nat t) w = reach vs (ds ! q) (x # w)"
      using t(2) rc by simp
    from Cons.IH[OF nt(1)]
    have "case dfa_run dfa t w of
           None \<Rightarrow> reach vs (ds ! q) (x # w) = {}
         | Some t' \<Rightarrow> in_range t' ds \<and> ds ! nat t' = reach vs (ds ! q) (x # w)"
      unfolding nt(2) e .
    with Some qr show ?thesis by simp
  qed
qed

lemma nfa2dfa_language:
  assumes "fst (nfa2dfa a) = Inr dfa"
  shows "dfa_accepts dfa w \<longleftrightarrow> nfa_accepts a w"
proof -
  from assms obtain ds recs where
    sc: "subset_construction a = Inr (ds, recs)"
    and cd: "construct_dfa (end' (nfa a)) ds recs = Inr dfa"
    by (auto simp: nfa2dfa_def split: sum.splits prod.splits)
  from sc obtain ecs where
    ce: "calculate_epsilon_closures (vec a) (replicate (length (vec a)) {}) = Inr ecs"
    and s0: "in_range (start (nfa a)) ecs"
    and l: "dfa_loop (vec a) ecs 0 [ecs ! nat (start (nfa a))] [] = Inr (ds, recs)"
    by (auto simp: subset_construction_def split: sum.splits if_splits)
  have ok: "closures_ok (vec a) ecs" using calculate_closures_ok[OF ce] .
  then have s0': "in_range (start (nfa a)) (vec a)"
    using s0 in_range_length[of ecs "vec a"] unfolding closures_ok_def by blast
  note inv = dfa_loop_spec[OF ok s0' l]
  from inv have ne: "0 < length ds" and d0: "ds ! 0 = closure_of (vec a) (start (nfa a))"
    unfolding dfa_inv_def by auto
  note sim = dfa_simulates[OF inv cd ne, of w]
  have acc: "nfa_accepts a w \<longleftrightarrow> end' (nfa a) \<in> reach (vec a) (ds ! 0) w"
    unfolding accepts_reach d0 closure_of_def ..
  show ?thesis
  proof (cases "dfa_run dfa 0 w")
    case None
    with sim acc show ?thesis by (simp add: dfa_accepts_def)
  next
    case (Some t)
    with sim have t: "in_range t ds" "ds ! nat t = reach (vec a) (ds ! 0) w" by simp_all
    have "is_end (dfa ! nat t) = (end' (nfa a) \<in> ds ! nat t)"
      using construct_dfa_spec[OF cd] in_range_nat[OF t(1)] by simp
    with Some t acc show ?thesis by (simp add: dfa_accepts_def)
  qed
qed


text \<open>
  C6. In the DFA that \<^verbatim>\<open>nfa2dfa\<close> returns, the accepting flag of a state is set if and
  only if the member set of that state, in the table that subset construction ended
  with, contains the end index of the automaton's overall fragment. The flags are set
  from the final table, after the discovery loop has ended.
\<close>

theorem accepting_marks:
  assumes "subset_construction a = Inr (dfa_states, dfa_ref_records)" "fst (nfa2dfa a) = Inr dfa"
  shows "length dfa = length dfa_states \<and>
    (\<forall>i < length dfa_states. is_end (dfa ! i) \<longleftrightarrow> end' (nfa a) \<in> dfa_states ! i)"
proof -
  from assms have "construct_dfa (end' (nfa a)) dfa_states dfa_ref_records = Inr dfa"
    by (simp add: nfa2dfa_def)
  from construct_dfa_spec[OF this] show ?thesis by simp
qed

theorem accepting_marks_witness:
  "subset_construction star_a =
     Inr ([{0, 2, 3}, {0, 1, 2, 3}],
          [\<lparr>from' = 0, rule' = 97, to' = 1\<rparr>, \<lparr>from' = 1, rule' = 97, to' = 1\<rparr>]) \<and>
   fst (nfa2dfa star_a) =
     Inr [\<lparr>is_end = True, refs = [(97, 1)]\<rparr>, \<lparr>is_end = True, refs = [(97, 1)]\<rparr>] \<and>
   length [\<lparr>is_end = True, refs = [(97, 1)]\<rparr>, \<lparr>is_end = True, refs = [(97, 1 :: int)]\<rparr>] =
     length [{0, 2, 3}, {0, 1, 2, 3 :: int}] \<and>
   (is_end ([\<lparr>is_end = True, refs = [(97, 1)]\<rparr>, \<lparr>is_end = True, refs = [(97, 1)]\<rparr>] ! 1) \<longleftrightarrow>
    end' (nfa star_a) \<in> [{0, 2, 3}, {0, 1, 2, 3}] ! 1)"
proof -
  have h1: "subset_construction star_a =
     Inr ([{0, 2, 3}, {0, 1, 2, 3}],
          [\<lparr>from' = 0, rule' = 97, to' = 1\<rparr>, \<lparr>from' = 1, rule' = 97, to' = 1\<rparr>])"
    by code_simp
  have h2: "fst (nfa2dfa star_a) =
     Inr [\<lparr>is_end = True, refs = [(97, 1)]\<rparr>, \<lparr>is_end = True, refs = [(97, 1)]\<rparr>]"
    by code_simp
  have h3: "(1 :: nat) < length [{0, 2, 3}, {0, 1, 2, 3 :: int}]"
    by simp
  from accepting_marks [OF h1 h2] h1 h2 h3 show ?thesis
    by blast
qed

section \<open>The DFA accepts what the NFA accepts\<close>

text \<open>
  A client is a finite sequence of calls of the operations of the algebra on one
  automaton, starting from \<^verbatim>\<open>NFA()\<close>. The fragments it passes are values of its own
  choice (in practice the results of earlier calls); a call that writes out of range
  ends the sequence, and so does a \<^verbatim>\<open>range\<close> that does not return.
\<close>

datatype op =
  Ch cchar
| Link NFASubsetRef NFASubsetRef
| Select NFASubsetRef NFASubsetRef
| Star NFASubsetRef
| Question NFASubsetRef
| Range cchar cchar
| One_of "cchar list"

fun apply_op :: "op \<Rightarrow> NFA \<Rightarrow> (error + NFA) option" where
  "apply_op (Ch c) a = Some (Inr (snd (ch c a)))"
| "apply_op (Link lv rv) a = Some (map_sum id snd (link lv rv a))"
| "apply_op (Select lv rv) a = Some (map_sum id snd (select lv rv a))"
| "apply_op (Star v) a = Some (map_sum id snd (star v a))"
| "apply_op (Question v) a = Some (Inr (snd (question v a)))"
| "apply_op (Range s e) a = map_option (map_sum id snd) (range' s e a)"
| "apply_op (One_of list) a = Some (map_sum id snd (one_of list a))"

fun build :: "op list \<Rightarrow> NFA \<Rightarrow> (error + NFA) option" where
  "build [] a = Some (Inr a)"
| "build (p # ps) a =
     (case apply_op p a of
        None \<Rightarrow> None
      | Some (Inl er) \<Rightarrow> Some (Inl er)
      | Some (Inr a') \<Rightarrow> build ps a')"

subsection \<open>Conversion of an automaton without epsilon cycle returns\<close>

text \<open>
  The stack of the closure computation is a path of epsilon edges, read from its top.
  Without an epsilon cycle its states are distinct, so it is never longer than the
  state sequence and the guard of the loop never fires.
\<close>

lemma visit_Inl: "visit argi s flag ecs = Inl er \<Longrightarrow> er = OutOfRange"
  by (auto simp: visit_def insert_closure_def split: if_splits sum.splits)

lemma finish_Inl: "finish argi flag ecs stack = Inl er \<Longrightarrow> er = OutOfRange"
  by (auto simp: finish_def split: if_splits)

lemma ec_body_Inl:
  assumes "ec_body nss flag ecs stack = Inl er" "\<not> length ecs < length stack"
  shows "er = OutOfRange"
  using assms
  by (auto simp: ec_body_def Let_def split: if_splits sum.splits option.splits
      dest: visit_Inl finish_Inl)

definition stack_path :: "NFAState list \<Rightarrow> int list \<Rightarrow> bool" where
  "stack_path nss stack \<longleftrightarrow>
     sorted_wrt (\<lambda>x y. (y, x) \<in> (eps_edges nss)\<^sup>+) stack \<and> (\<forall>s \<in> set stack. in_range s nss)"

lemma sorted_wrt_irrefl_distinct:
  "sorted_wrt P xs \<Longrightarrow> (\<And>x. \<not> P x x) \<Longrightarrow> distinct xs"
  by (induction xs) auto

lemma distinct_in_range_length:
  assumes "distinct stack" "\<forall>s \<in> set stack. in_range s nss"
  shows "length stack \<le> length nss"
proof -
  have "set stack \<subseteq> {j. in_range j nss}" using assms(2) by blast
  then have "card (set stack) \<le> card {j. in_range j nss}"
    by (rule card_mono[OF finite_in_range])
  moreover have "{j. in_range j nss} = {0..<int (length nss)}"
    unfolding in_range_def by auto
  ultimately show ?thesis using distinct_card[OF assms(1)] by simp
qed

lemma stack_path_length:
  assumes "acyclic (eps_edges nss)" "stack_path nss stack"
  shows "length stack \<le> length nss"
proof -
  have "\<not> (x, x) \<in> (eps_edges nss)\<^sup>+" for x
    using assms(1) unfolding acyclic_def by blast
  then have "distinct stack"
    using sorted_wrt_irrefl_distinct[of "\<lambda>x y. (y, x) \<in> (eps_edges nss)\<^sup>+" stack] assms(2)
    unfolding stack_path_def by blast
  then show ?thesis using distinct_in_range_length assms(2) unfolding stack_path_def by blast
qed

lemma visit_None_target: "visit argi s flag ecs = Inr None \<Longrightarrow> s \<noteq> REF_UNDEFINED \<and> in_range s flag"
  by (auto simp: visit_def split: if_splits sum.splits)

lemma stack_path_push:
  assumes p: "stack_path nss stack" and ne: "stack \<noteq> []"
    and e: "(hd stack, s) \<in> eps_edges nss" and r: "in_range s nss"
  shows "stack_path nss (s # stack)"
proof -
  obtain x xs where st: "stack = x # xs" using ne by (cases stack) auto
  have "(y, s) \<in> (eps_edges nss)\<^sup>+" if "y \<in> set stack" for y
  proof (cases "y = x")
    case True
    then show ?thesis using e st by auto
  next
    case False
    with that st have "y \<in> set xs" by simp
    then have "(y, x) \<in> (eps_edges nss)\<^sup>+" using p st unfolding stack_path_def by simp
    then show ?thesis using e st by (simp add: trancl.trancl_into_trancl)
  qed
  then show ?thesis using p r unfolding stack_path_def by simp
qed

lemma stack_path_tl: "stack_path nss stack \<Longrightarrow> stack_path nss (tl stack)"
  unfolding stack_path_def by (cases stack) auto

lemma ec_body_path:
  assumes p: "stack_path nss stack" and ne: "stack \<noteq> []" and len: "length flag = length nss"
    and b: "ec_body nss flag ecs stack = Inr (flag', ecs', stack')"
  shows "stack_path nss stack'"
  using b
proof (cases rule: ec_body_Inr_cases)
  case push1
  from visit_None_target[OF push1(2)]
  have s: "first (nss ! nat (hd stack)) \<noteq> REF_UNDEFINED" "in_range (first (nss ! nat (hd stack))) nss"
    using len in_range_length[of flag nss] by simp_all
  then have "(hd stack, first (nss ! nat (hd stack))) \<in> eps_edges nss"
    using push1 by (simp add: eps_edges_iff)
  from stack_path_push[OF p ne this s(2)] push1 show ?thesis by simp
next
  case (push2 ecs1)
  from visit_None_target[OF push2(3)]
  have s: "second (nss ! nat (hd stack)) \<noteq> REF_UNDEFINED" "in_range (second (nss ! nat (hd stack))) nss"
    using len in_range_length[of flag nss] by simp_all
  then have "(hd stack, second (nss ! nat (hd stack))) \<in> eps_edges nss"
    using push2 by (simp add: eps_edges_iff)
  from stack_path_push[OF p ne this s(2)] push2 show ?thesis by simp
next
  case (pop_eps ecs1 ecs2)
  from finish_shape[OF pop_eps(4)] stack_path_tl[OF p] show ?thesis by simp
next
  case pop_sym
  from finish_shape[OF pop_sym(2)] stack_path_tl[OF p] show ?thesis by simp
qed

lemma ec_body_total:
  assumes wf: "targets_in_range nss" and ac: "acyclic (eps_edges nss)"
    and len: "length flag = length nss" "length ecs = length nss"
    and p: "stack_path nss stack" and ne: "stack \<noteq> []"
  shows "\<exists>r. ec_body nss flag ecs stack = Inr r"
proof (cases "ec_body nss flag ecs stack")
  case (Inl er)
  have hd: "in_range (hd stack) nss" using p ne unfolding stack_path_def by (cases stack) auto
  have g: "\<not> length ecs < length stack" using stack_path_length[OF ac p] len by simp
  from ec_body_error[OF wf len hd Inl] ec_body_Inl[OF Inl g] show ?thesis by simp
next
  case (Inr r)
  then show ?thesis by blast
qed

lemma ec_while_total:
  assumes "targets_in_range nss" "acyclic (eps_edges nss)"
    "length flag = length nss" "length ecs = length nss" "stack_path nss stack"
  shows "\<exists>r. ec_while nss flag ecs stack = Inr r"
  using assms
proof (induction nss flag ecs stack rule: ec_while.induct)
  case (1 nss flag ecs stack)
  show ?case
  proof (cases "stack = []")
    case True
    then show ?thesis by (simp add: ec_while.simps)
  next
    case False
    from ec_body_total[OF "1.prems" False] obtain f1 e1 s1 where
      b: "ec_body nss flag ecs stack = Inr (f1, e1, s1)" by (metis prod_cases3)
    from ec_body_shape[OF b] "1.prems"(3,4)
    have l: "length f1 = length nss" "length e1 = length nss" by simp_all
    have p: "stack_path nss s1" using ec_body_path[OF "1.prems"(5) False "1.prems"(3) b] .
    from "1.IH"[OF False b refl refl "1.prems"(1,2) l p] obtain r where
      "ec_while nss f1 e1 s1 = Inr r" by blast
    with b False show ?thesis by (subst ec_while.simps) simp
  qed
qed

lemma ec_for_total:
  assumes "targets_in_range nss" "acyclic (eps_edges nss)"
    "length flag = length nss" "length ecs = length nss" "\<forall>i \<in> set is. i < length nss"
  shows "\<exists>r. ec_for nss is flag ecs = Inr r"
  using assms
proof (induction "is" arbitrary: flag ecs)
  case Nil
  then show ?case by simp
next
  case (Cons i "is")
  have "stack_path nss [int i]" using Cons.prems(5) by (simp add: stack_path_def)
  from ec_while_total[OF Cons.prems(1-4) this] obtain f1 e1 where
    w: "ec_while nss flag ecs [int i] = Inr (f1, e1)" by (metis surj_pair)
  from ec_while_shape[OF w] Cons.prems(3,4)
  have l: "length f1 = length nss" "length e1 = length nss" by simp_all
  from Cons.IH[OF Cons.prems(1,2) l] Cons.prems(5) obtain r where
    "ec_for nss is f1 e1 = Inr r" by auto
  with w show ?case by simp
qed

lemma calculate_epsilon_closures_total:
  assumes "targets_in_range nss" "acyclic (eps_edges nss)"
  shows "\<exists>ecs. calculate_epsilon_closures nss (replicate (length nss) {}) = Inr ecs"
proof -
  from ec_for_total[OF assms, of "replicate (length nss) False" "replicate (length nss) {}"
      "[0..<length nss]"]
  obtain f e where "ec_for nss [0..<length nss] (replicate (length nss) False)
      (replicate (length nss) {}) = Inr (f, e)" by auto
  then show ?thesis by (simp add: calculate_epsilon_closures_def)
qed

text \<open>
  The table loop and the construction of the DFA read the closure table at the members
  of the DFA states and at the targets of their symbol transitions only.
\<close>

definition symbol_targets_in_range :: "NFAState list \<Rightarrow> bool" where
  "symbol_targets_in_range vs \<longleftrightarrow> (\<forall>s \<in> set vs. is_symbol (rule s) \<longrightarrow> in_range (first s) vs)"

lemma collect_closure_total:
  assumes "in_range si vs" "is_symbol (rule (vs ! nat si)) \<longrightarrow> in_range (first (vs ! nat si)) ecs"
  shows "\<exists>m'. collect_closure vs ecs si m = Inr m'"
  using assms by (auto simp: collect_closure_def is_symbol_def)

lemma for_each_collect_total:
  assumes "\<forall>si \<in> set L. in_range si vs \<and>
             (is_symbol (rule (vs ! nat si)) \<longrightarrow> in_range (first (vs ! nat si)) ecs)"
  shows "\<exists>m'. for_each L (collect_closure vs ecs) m = Inr m'"
  using assms
proof (induction L arbitrary: m)
  case Nil
  then show ?case by simp
next
  case (Cons si L)
  from Cons.prems collect_closure_total[of si vs ecs m] obtain m1 where
    "collect_closure vs ecs si m = Inr m1" by auto
  moreover from Cons.IH[of m1] Cons.prems obtain m' where
    "for_each L (collect_closure vs ecs) m1 = Inr m'" by auto
  ultimately show ?case by simp
qed

lemma dfa_body_total:
  assumes st: "symbol_targets_in_range vs" and len: "length ecs = length vs"
    and cl: "eps_closed vs D" and D: "D = ds ! dsi"
  shows "\<exists>r. dfa_body vs ecs dsi ds recs = Inr r"
proof -
  have sD: "set (sorted_list_of_set D) = D"
    using eps_closed_finite[OF cl] by simp
  have "in_range si vs \<and> (is_symbol (rule (vs ! nat si)) \<longrightarrow> in_range (first (vs ! nat si)) ecs)"
    if "si \<in> D" for si
  proof -
    have r: "in_range si vs" using cl that unfolding eps_closed_def by blast
    then have "vs ! nat si \<in> set vs" using in_range_nat nth_mem by blast
    then have "is_symbol (rule (vs ! nat si)) \<longrightarrow> in_range (first (vs ! nat si)) vs"
      using st unfolding symbol_targets_in_range_def by blast
    then show ?thesis using r in_range_length[OF len] by blast
  qed
  then have "\<exists>m'. for_each (sorted_list_of_set D) (collect_closure vs ecs) [] = Inr m'"
    using for_each_collect_total[of "sorted_list_of_set D" vs ecs "[]"] sD by blast
  then show ?thesis unfolding dfa_body_def D by auto
qed

lemma dfa_loop_total:
  assumes "closures_ok vs ecs" "symbol_targets_in_range vs" "\<forall>D \<in> set ds. eps_closed vs D"
  shows "\<exists>r. dfa_loop vs ecs dsi ds recs = Inr r"
  using assms
proof (induction vs ecs dsi ds recs rule: dfa_loop.induct)
  case (1 vs ecs dsi ds recs)
  show ?case
  proof (cases "dsi < length ds")
    case False
    then show ?thesis by (subst dfa_loop.simps) simp
  next
    case True
    then have cl: "eps_closed vs (ds ! dsi)" using "1.prems"(3) by simp
    have len: "length ecs = length vs" using "1.prems"(1) unfolding closures_ok_def by blast
    from dfa_body_total[OF "1.prems"(2) len cl refl] obtain ds1 recs1 where
      b: "dfa_body vs ecs dsi ds recs = Inr (ds1, recs1)" by (metis surj_pair)
    from dfa_body_spec[OF "1.prems"(1) True cl b] obtain new where
      "ds1 = ds @ new" "\<forall>T \<in> set new. eps_closed vs T" by blast
    then have "\<forall>D \<in> set ds1. eps_closed vs D" using "1.prems"(3) by auto
    from "1.IH"[OF True b refl "1.prems"(1,2) this] obtain r where
      "dfa_loop vs ecs (dsi + 1) ds1 recs1 = Inr r" by blast
    with b True show ?thesis by (subst dfa_loop.simps) simp
  qed
qed

lemma add_record_length: "add_record r d = Inr d' \<Longrightarrow> length d' = length d"
  by (auto simp: add_record_def split: if_splits)

lemma for_each_add_record_total:
  assumes "\<forall>r \<in> set recs. in_range (from' r) d"
  shows "\<exists>d'. for_each recs add_record d = Inr d'"
  using assms
proof (induction recs arbitrary: d)
  case Nil
  then show ?case by simp
next
  case (Cons r recs)
  then have "in_range (from' r) d" by simp
  then obtain d1 where a: "add_record r d = Inr d1" by (auto simp: add_record_def)
  have "\<forall>r \<in> set recs. in_range (from' r) d1"
    using Cons.prems add_record_length[OF a] in_range_length[of d1 d] by simp
  from Cons.IH[OF this] a show ?case by auto
qed

lemma construct_dfa_total:
  assumes "\<forall>r \<in> set recs. in_range (from' r) ds"
  shows "\<exists>dfa. construct_dfa e ds recs = Inr dfa"
proof -
  have "length (mark_ends ds e (DFA_init (length ds))) = length ds"
    using mark_ends_spec[of ds e "length ds"] by simp
  then have "\<forall>r \<in> set recs. in_range (from' r) (mark_ends ds e (DFA_init (length ds)))"
    using assms in_range_length[of "mark_ends ds e (DFA_init (length ds))" ds] by simp
  from for_each_add_record_total[OF this] show ?thesis by (simp add: construct_dfa_def)
qed

lemma nfa2dfa_total:
  assumes t: "targets_in_range (vec a)" and st: "symbol_targets_in_range (vec a)"
    and ac: "acyclic (eps_edges (vec a))" and s0: "in_range (start (nfa a)) (vec a)"
  shows "\<exists>dfa. fst (nfa2dfa a) = Inr dfa"
proof -
  from calculate_epsilon_closures_total[OF t ac] obtain ecs where
    ce: "calculate_epsilon_closures (vec a) (replicate (length (vec a)) {}) = Inr ecs" by blast
  have ok: "closures_ok (vec a) ecs" using calculate_closures_ok[OF ce] .
  then have s0': "in_range (start (nfa a)) ecs"
    using s0 in_range_length[of ecs "vec a"] unfolding closures_ok_def by blast
  have "\<forall>D \<in> set [ecs ! nat (start (nfa a))]. eps_closed (vec a) D"
    using closure_closed[OF ok s0] by simp
  from dfa_loop_total[OF ok st this] obtain ds recs where
    l: "dfa_loop (vec a) ecs 0 [ecs ! nat (start (nfa a))] [] = Inr (ds, recs)" by (metis surj_pair)
  have sc: "subset_construction a = Inr (ds, recs)"
    using ce s0' l by (simp add: subset_construction_def)
  from dfa_loop_spec[OF ok s0 l] have "\<forall>r \<in> set recs. in_range (from' r) ds"
    unfolding dfa_inv_def rec_ok_def by blast
  from construct_dfa_total[OF this] obtain dfa where
    "construct_dfa (end' (nfa a)) ds recs = Inr dfa" by blast
  with sc show ?thesis by (simp add: nfa2dfa_def)
qed

subsection \<open>The operations keep the targets in range\<close>

definition state_ok :: "nat \<Rightarrow> NFAState \<Rightarrow> bool" where
  "state_ok n s \<longleftrightarrow>
     (first s = REF_UNDEFINED \<or> (0 \<le> first s \<and> first s < int n)) \<and>
     (second s = REF_UNDEFINED \<or> (0 \<le> second s \<and> second s < int n)) \<and>
     (is_symbol (rule s) \<longrightarrow> 0 \<le> first s \<and> first s < int n)"

definition states_ok :: "NFAState list \<Rightarrow> bool" where
  "states_ok v \<longleftrightarrow> (\<forall>s \<in> set v. state_ok (length v) s)"

lemma state_ok_mono: "state_ok n s \<Longrightarrow> n \<le> m \<Longrightarrow> state_ok m s"
  unfolding state_ok_def by auto

lemma state_ok_init: "state_ok n NFAState_init"
  by (simp add: state_ok_def NFAState_init_def is_symbol_def)

lemma states_ok_update:
  assumes "states_ok v" "state_ok (length v) s"
  shows "states_ok (v[i := s])"
  unfolding states_ok_def
proof
  fix x assume "x \<in> set (v[i := s])"
  then have "x = s \<or> x \<in> set v" using set_update_subset_insert[of v i s] by auto
  then show "state_ok (length (v[i := s])) x" using assms unfolding states_ok_def by auto
qed

lemma states_ok_append:
  assumes "states_ok v" "\<forall>s \<in> set w. state_ok (length v + length w) s"
  shows "states_ok (v @ w)"
  unfolding states_ok_def
proof
  fix x assume "x \<in> set (v @ w)"
  then have "x \<in> set v \<or> x \<in> set w" by simp
  then show "state_ok (length (v @ w)) x"
  proof
    assume "x \<in> set v"
    then have "state_ok (length v) x" using assms(1) unfolding states_ok_def by blast
    then show ?thesis by (rule state_ok_mono) simp
  next
    assume "x \<in> set w"
    then show ?thesis using assms(2) by simp
  qed
qed

lemma states_ok_nth: "states_ok v \<Longrightarrow> in_range i v \<Longrightarrow> state_ok (length v) (v ! nat i)"
  unfolding states_ok_def using in_range_nat nth_mem by blast

lemma length_set_rule [simp]: "length (set_rule i r v) = length v"
  by (simp add: set_rule_def)

lemma length_set_first [simp]: "length (set_first i x v) = length v"
  by (simp add: set_first_def)

lemma length_set_second [simp]: "length (set_second i x v) = length v"
  by (simp add: set_second_def)

lemma in_range_set_rule [simp]: "in_range j (set_rule i r v) = in_range j v"
  by (simp add: in_range_def)

lemma in_range_set_first [simp]: "in_range j (set_first i x v) = in_range j v"
  by (simp add: in_range_def)

lemma in_range_set_second [simp]: "in_range j (set_second i x v) = in_range j v"
  by (simp add: in_range_def)

lemma target_ok_iff: "(x = REF_UNDEFINED \<or> in_range x v) \<longleftrightarrow> (x = REF_UNDEFINED \<or> (0 \<le> x \<and> x < int (length v)))"
  by (simp add: in_range_def)

text \<open>Writing the rule keeps a state in order when the new rule is the epsilon sentinel.\<close>

lemma set_rule_eps_ok:
  assumes "states_ok v" "in_range i v"
  shows "states_ok (set_rule i RULE_EPSILON v)"
proof -
  have "state_ok (length v) (v ! nat i)" using states_ok_nth[OF assms] .
  then have "state_ok (length v) ((v ! nat i)\<lparr>rule := RULE_EPSILON\<rparr>)"
    by (simp add: state_ok_def is_symbol_def)
  then show ?thesis unfolding set_rule_def by (rule states_ok_update[OF assms(1)])
qed

lemma set_first_ok:
  assumes "states_ok v" "in_range i v" "in_range x v \<or> (x = REF_UNDEFINED \<and> \<not> is_symbol (rule (v ! nat i)))"
  shows "states_ok (set_first i x v)"
proof -
  have "state_ok (length v) (v ! nat i)" using states_ok_nth[OF assms(1,2)] .
  then have "state_ok (length v) ((v ! nat i)\<lparr>NFAState.refs := (x, second (v ! nat i))\<rparr>)"
    using assms(3) by (auto simp: state_ok_def in_range_def)
  then show ?thesis unfolding set_first_def by (rule states_ok_update[OF assms(1)])
qed

lemma set_second_ok:
  assumes "states_ok v" "in_range i v" "in_range x v \<or> x = REF_UNDEFINED"
  shows "states_ok (set_second i x v)"
proof -
  have "state_ok (length v) (v ! nat i)" using states_ok_nth[OF assms(1,2)] .
  then have "state_ok (length v) ((v ! nat i)\<lparr>NFAState.refs := (first (v ! nat i), x)\<rparr>)"
    using assms(3) by (auto simp: state_ok_def in_range_def)
  then show ?thesis unfolding set_second_def by (rule states_ok_update[OF assms(1)])
qed

lemma rule_set_rule: "in_range i v \<Longrightarrow> rule (set_rule i r v ! nat i) = r"
  by (simp add: set_rule_def in_range_nat)

definition fragment_in_range :: "NFASubsetRef \<Rightarrow> NFA \<Rightarrow> bool" where
  "fragment_in_range r a \<longleftrightarrow> in_range (start r) (vec a) \<and> in_range (end' r) (vec a)"

definition well_formed :: "NFA \<Rightarrow> bool" where
  "well_formed a \<longleftrightarrow> states_ok (vec a) \<and> (vec a \<noteq> [] \<longrightarrow> fragment_in_range (nfa a) a)"

lemma ch_write_ok:
  assumes "states_ok v" "in_range i v" "in_range x v"
  shows "states_ok (set_first i x (set_rule i c v))"
proof -
  have k: "nat i < length v" using in_range_nat[OF assms(2)] .
  have e: "set_first i x (set_rule i c v) =
      v[nat i := (v ! nat i)\<lparr>rule := c, NFAState.refs := (x, second (v ! nat i))\<rparr>]"
    using k by (simp add: set_first_def set_rule_def)
  have "state_ok (length v) (v ! nat i)" using states_ok_nth[OF assms(1,2)] .
  then have "state_ok (length v) ((v ! nat i)\<lparr>rule := c, NFAState.refs := (x, second (v ! nat i))\<rparr>)"
    using assms(3) by (auto simp: state_ok_def in_range_def)
  then show ?thesis unfolding e by (rule states_ok_update[OF assms(1)])
qed

lemma eps_write_ok:
  assumes "states_ok v" "in_range i v" "in_range x v"
  shows "states_ok (set_first i x (set_rule i RULE_EPSILON v))"
  using ch_write_ok[OF assms] .

lemma start_write_ok:
  assumes "states_ok v" "in_range i v" "in_range x v" "in_range y v"
  shows "states_ok (set_second i y (set_first i x (set_rule i RULE_EPSILON v)))"
  by (rule set_second_ok) (use assms ch_write_ok in simp_all)

lemma states_ok_grow2: "states_ok v \<Longrightarrow> states_ok (v @ [NFAState_init, NFAState_init])"
  by (rule states_ok_append) (simp_all add: state_ok_init)

lemma states_ok_grow1: "states_ok v \<Longrightarrow> states_ok (v @ [NFAState_init])"
  by (rule states_ok_append) (simp_all add: state_ok_init)

lemma in_range_new0: "in_range (int (length v)) (v @ [s, t])"
  by (simp add: in_range_def)

lemma in_range_new1: "in_range (int (length v) + 1) (v @ [s, t])"
  by (simp add: in_range_def)

lemma in_range_new: "in_range (int (length v)) (v @ [s])"
  by (simp add: in_range_def)

lemma ch_wf:
  assumes "well_formed a" "ch c a = (r, a')"
  shows "well_formed a' \<and> vec a' \<noteq> [] \<and> nfa a' = r \<and> length (vec a') = length (vec a) + 2"
proof -
  let ?n = "int (length (vec a))"
  let ?v0 = "vec a @ [NFAState_init, NFAState_init]"
  from assms(2) have r: "r = \<lparr>start = ?n, end' = ?n + 1\<rparr>"
    and a': "a' = \<lparr>nfa = r, vec = set_first ?n (?n + 1) (set_rule ?n c ?v0)\<rparr>"
    by (auto simp: ch_def Let_def)
  have ok0: "states_ok ?v0" using assms(1) states_ok_grow2 unfolding well_formed_def by blast
  have ok: "states_ok (vec a')"
    unfolding a' using ch_write_ok[OF ok0 in_range_new0 in_range_new1] by simp
  have len: "length (vec a') = length (vec a) + 2" unfolding a' by simp
  have fr: "fragment_in_range (nfa a') a'"
    unfolding a' fragment_in_range_def r by (simp add: in_range_def)
  have ne': "vec a' \<noteq> []" using len by auto
  have n: "nfa a' = r" unfolding a' by simp
  from ok len fr ne' n show ?thesis unfolding well_formed_def by simp
qed

lemma fragment_in_range_grow:
  "fragment_in_range r a \<Longrightarrow> length (vec a) \<le> length (vec a') \<Longrightarrow> fragment_in_range r a'"
  unfolding fragment_in_range_def in_range_def by auto

lemma link_wf:
  assumes wf: "well_formed a" and lv: "fragment_in_range lv a" and rv: "fragment_in_range rv a"
    and l: "link lv rv a = Inr (r, a')"
  shows "well_formed a' \<and> vec a' \<noteq> [] \<and> nfa a' = r \<and> length (vec a') = length (vec a)"
proof -
  from l have r: "r = \<lparr>start = start lv, end' = end' rv\<rparr>"
    and a': "a' = \<lparr>nfa = r, vec = set_first (end' lv) (start rv) (set_rule (end' lv) RULE_EPSILON (vec a))\<rparr>"
    by (auto simp: link_def Let_def split: if_splits)
  have ok: "states_ok (vec a')"
    unfolding a' using eps_write_ok[of "vec a" "end' lv" "start rv"] wf lv rv
    unfolding well_formed_def fragment_in_range_def by simp
  have len: "length (vec a') = length (vec a)" unfolding a' by simp
  have ne: "vec a \<noteq> []" using lv unfolding fragment_in_range_def in_range_def by auto
  have fr: "fragment_in_range (nfa a') a'"
    using lv rv unfolding a' r fragment_in_range_def by simp
  have ne': "vec a' \<noteq> []" using len ne by auto
  have n: "nfa a' = r" unfolding a' by simp
  from ok len fr ne' n show ?thesis unfolding well_formed_def by simp
qed

lemma select_wf:
  assumes wf: "well_formed a" and lv: "fragment_in_range lv a" and rv: "fragment_in_range rv a"
    and l: "select lv rv a = Inr (r, a')"
  shows "well_formed a' \<and> vec a' \<noteq> [] \<and> nfa a' = r \<and> length (vec a') = length (vec a) + 2"
proof -
  let ?n = "int (length (vec a))"
  let ?v0 = "vec a @ [NFAState_init, NFAState_init]"
  let ?v1 = "set_second ?n (start rv) (set_first ?n (start lv) (set_rule ?n RULE_EPSILON ?v0))"
  let ?v2 = "set_first (end' lv) (?n + 1) (set_rule (end' lv) RULE_EPSILON ?v1)"
  let ?v3 = "set_first (end' rv) (?n + 1) (set_rule (end' rv) RULE_EPSILON ?v2)"
  from l have r: "r = \<lparr>start = ?n, end' = ?n + 1\<rparr>" and a': "a' = \<lparr>nfa = r, vec = ?v3\<rparr>"
    by (auto simp: select_def Let_def split: if_splits)
  have g: "in_range (start lv) ?v0" "in_range (end' lv) ?v0" "in_range (start rv) ?v0"
    "in_range (end' rv) ?v0"
    using lv rv in_range_append unfolding fragment_in_range_def by blast+
  have ok0: "states_ok ?v0" using wf states_ok_grow2 unfolding well_formed_def by blast
  have ok1: "states_ok ?v1" using start_write_ok[OF ok0 in_range_new0 g(1) g(3)] .
  have ok2: "states_ok ?v2"
    by (rule eps_write_ok[OF ok1]) (use g in_range_new1[of "vec a"] in simp_all)
  have ok3: "states_ok ?v3"
    by (rule eps_write_ok[OF ok2]) (use g in_range_new1[of "vec a"] in simp_all)
  have len: "length (vec a') = length (vec a) + 2" unfolding a' by simp
  have fr: "fragment_in_range (nfa a') a'"
    unfolding a' fragment_in_range_def r by (simp add: in_range_def)
  have ne': "vec a' \<noteq> []" using len by auto
  have n: "nfa a' = r" unfolding a' by simp
  have ok': "states_ok (vec a')" unfolding a' using ok3 by simp
  from ok' len fr ne' n show ?thesis unfolding well_formed_def by simp
qed

lemma star_wf:
  assumes wf: "well_formed a" and v: "fragment_in_range v0 a"
    and l: "star v0 a = Inr (r, a')"
  shows "well_formed a' \<and> vec a' \<noteq> [] \<and> nfa a' = r \<and> length (vec a') = length (vec a) + 2"
proof -
  let ?n = "int (length (vec a))"
  let ?v0 = "vec a @ [NFAState_init, NFAState_init]"
  let ?v1 = "set_second ?n (?n + 1) (set_first ?n (start v0) (set_rule ?n RULE_EPSILON ?v0))"
  let ?v2 = "set_first (end' v0) ?n (set_rule (end' v0) RULE_EPSILON ?v1)"
  from l have r: "r = \<lparr>start = ?n, end' = ?n + 1\<rparr>" and a': "a' = \<lparr>nfa = r, vec = ?v2\<rparr>"
    by (auto simp: star_def Let_def split: if_splits)
  have g: "in_range (start v0) ?v0" "in_range (end' v0) ?v0"
    using v in_range_append unfolding fragment_in_range_def by blast+
  have ok0: "states_ok ?v0" using wf states_ok_grow2 unfolding well_formed_def by blast
  have ok1: "states_ok ?v1" using start_write_ok[OF ok0 in_range_new0 g(1) in_range_new1] .
  have ok2: "states_ok ?v2"
    by (rule eps_write_ok[OF ok1]) (use g in_range_new0[of "vec a"] in simp_all)
  have len: "length (vec a') = length (vec a) + 2" unfolding a' by simp
  have fr: "fragment_in_range (nfa a') a'"
    unfolding a' fragment_in_range_def r by (simp add: in_range_def)
  have ne': "vec a' \<noteq> []" using len by auto
  have n: "nfa a' = r" unfolding a' by simp
  have ok': "states_ok (vec a')" unfolding a' using ok2 by simp
  from ok' len fr ne' n show ?thesis unfolding well_formed_def by simp
qed

lemma question_wf:
  assumes wf: "well_formed a" and v: "fragment_in_range v0 a"
    and l: "question v0 a = (r, a')"
  shows "well_formed a' \<and> vec a' \<noteq> [] \<and> nfa a' = r \<and> length (vec a') = length (vec a) + 1"
proof -
  let ?n = "int (length (vec a))"
  let ?v0 = "vec a @ [NFAState_init]"
  let ?v1 = "set_second ?n (end' v0) (set_first ?n (start v0) (set_rule ?n RULE_EPSILON ?v0))"
  from l have r: "r = \<lparr>start = ?n, end' = end' v0\<rparr>" and a': "a' = \<lparr>nfa = r, vec = ?v1\<rparr>"
    by (auto simp: question_def Let_def)
  have g: "in_range (start v0) ?v0" "in_range (end' v0) ?v0"
    using v in_range_append unfolding fragment_in_range_def by blast+
  have ok0: "states_ok ?v0" using wf states_ok_grow1 unfolding well_formed_def by blast
  have ok1: "states_ok ?v1" using start_write_ok[OF ok0 in_range_new g(1) g(2)] .
  have len: "length (vec a') = length (vec a) + 1" unfolding a' by simp
  have fr: "fragment_in_range (nfa a') a'"
    using g(2) unfolding a' fragment_in_range_def r by (simp add: in_range_def)
  have ne': "vec a' \<noteq> []" using len by auto
  have n: "nfa a' = r" unfolding a' by simp
  have ok': "states_ok (vec a')" unfolding a' using ok1 by simp
  from ok' len fr ne' n show ?thesis unfolding well_formed_def by simp
qed

fun op_fragments :: "op \<Rightarrow> NFASubsetRef list" where
  "op_fragments (Ch c) = []"
| "op_fragments (Link lv rv) = [lv, rv]"
| "op_fragments (Select lv rv) = [lv, rv]"
| "op_fragments (Star v) = [v]"
| "op_fragments (Question v) = [v]"
| "op_fragments (Range s e) = []"
| "op_fragments (One_of list) = []"

fun args_in_range :: "op list \<Rightarrow> NFA \<Rightarrow> bool" where
  "args_in_range [] a = True"
| "args_in_range (p # ps) a =
     (list_all (\<lambda>r. fragment_in_range r a) (op_fragments p) \<and>
      (case apply_op p a of Some (Inr a') \<Rightarrow> args_in_range ps a' | _ \<Rightarrow> True))"

definition star_star_a :: NFA where
  "star_star_a = (case star (nfa star_a) star_a of Inr (r, a) \<Rightarrow> a | Inl er \<Rightarrow> star_a)"

lemma well_formed_fragment: "well_formed a \<Longrightarrow> vec a \<noteq> [] \<Longrightarrow> fragment_in_range (nfa a) a"
  unfolding well_formed_def by blast

lemma range_loop_wf:
  assumes "range_loop c e ns a = Some y"
  shows "well_formed a \<longrightarrow> fragment_in_range ns a \<longrightarrow>
         (\<forall>r a'. y = Inr (r, a') \<longrightarrow> well_formed a')"
proof (rule range_loop.raw_induct
    [where P = "\<lambda>c e ns a y. well_formed a \<longrightarrow> fragment_in_range ns a \<longrightarrow>
         (\<forall>r a'. y = Inr (r, a') \<longrightarrow> well_formed a')", OF _ assms])
  fix f :: "cchar \<Rightarrow> cchar \<Rightarrow> NFASubsetRef \<Rightarrow> NFA \<Rightarrow> (error + NFASubsetRef \<times> NFA) option"
  fix c e ns a y
  assume IH: "\<And>c e ns a y. f c e ns a = Some y \<Longrightarrow>
      well_formed a \<longrightarrow> fragment_in_range ns a \<longrightarrow> (\<forall>r a'. y = Inr (r, a') \<longrightarrow> well_formed a')"
    and body: "(if sint c \<le> sint e
      then case ch c a of
           (r, a1) \<Rightarrow>
             case select ns r a1 of Inl er \<Rightarrow> Some (Inl er)
             | Inr (ns', a2) \<Rightarrow> f (c + 1) e ns' a2
      else Some (Inr (ns, a))) = Some y"
  show "well_formed a \<longrightarrow> fragment_in_range ns a \<longrightarrow>
         (\<forall>r a'. y = Inr (r, a') \<longrightarrow> well_formed a')"
  proof (intro impI allI)
    fix r a'
    assume wf: "well_formed a" and ns: "fragment_in_range ns a" and y: "y = Inr (r, a')"
    show "well_formed a'"
    proof (cases "sint c \<le> sint e")
      case False
      with body y wf show ?thesis by simp
    next
      case True
      obtain r1 a1 where c1: "ch c a = (r1, a1)" by (cases "ch c a")
      note w1 = ch_wf[OF wf c1]
      have r1: "fragment_in_range r1 a1" using w1 well_formed_fragment by blast
      have ns1: "fragment_in_range ns a1" using fragment_in_range_grow[OF ns] w1 by simp
      show ?thesis
      proof (cases "select ns r1 a1")
        case (Inl er)
        with body True c1 y show ?thesis by simp
      next
        case (Inr p)
        obtain ns' a2 where p: "p = (ns', a2)" by (cases p)
        note w2 = select_wf[OF _ ns1 r1 Inr[unfolded p]]
        have wf2: "well_formed a2" using w2 w1 by blast
        then have ns2: "fragment_in_range ns' a2" using w2 w1 well_formed_fragment by blast
        from body True c1 Inr p have "f (c + 1) e ns' a2 = Some y" by simp
        from IH[OF this] wf2 ns2 y show ?thesis by blast
      qed
    qed
  qed
qed

lemma range'_wf:
  assumes "range' s e a = Some (Inr (r, a'))" "well_formed a"
  shows "well_formed a'"
proof (cases "sint s > sint e")
  case True
  with assms show ?thesis by (simp add: range'_def)
next
  case False
  show ?thesis
  proof (cases "s = e")
    case True
    with assms(1) False have "ch s a = (r, a')" by (simp add: range'_def)
    from ch_wf[OF assms(2) this] show ?thesis by simp
  next
    case ne: False
    obtain ns a1 where c1: "ch s a = (ns, a1)" by (cases "ch s a")
    with assms(1) False ne have l: "range_loop (s + 1) e ns a1 = Some (Inr (r, a'))"
      by (simp add: range'_def)
    note w1 = ch_wf[OF assms(2) c1]
    then have "fragment_in_range ns a1" using well_formed_fragment by blast
    with range_loop_wf[OF l] w1 show ?thesis by blast
  qed
qed

lemma one_of_loop_wf:
  assumes "one_of_loop ps ns a = Inr (r, a')" "well_formed a" "fragment_in_range ns a"
  shows "well_formed a'"
  using assms
proof (induction ps ns a rule: one_of_loop.induct)
  case (1 ns a)
  then show ?case by simp
next
  case (2 p ps ns a)
  show ?case
  proof (cases "p = 0")
    case True
    with "2.prems" show ?thesis by simp
  next
    case False
    obtain r1 a1 where c1: "ch p a = (r1, a1)" by (cases "ch p a")
    note w1 = ch_wf[OF "2.prems"(2) c1]
    have r1: "fragment_in_range r1 a1" using w1 well_formed_fragment by blast
    have ns1: "fragment_in_range ns a1" using fragment_in_range_grow[OF "2.prems"(3)] w1 by simp
    show ?thesis
    proof (cases "select ns r1 a1")
      case (Inl er)
      with "2.prems"(1) False c1 show ?thesis by simp
    next
      case (Inr q)
      obtain ns' a2 where q: "q = (ns', a2)" by (cases q)
      note w2 = select_wf[OF _ ns1 r1 Inr[unfolded q]]
      have wf2: "well_formed a2" using w2 w1 by blast
      then have ns2: "fragment_in_range ns' a2" using w2 w1 well_formed_fragment by blast
      from "2.prems"(1) False c1 Inr q have l: "one_of_loop ps ns' a2 = Inr (r, a')" by simp
      from "2.IH"[OF False c1[symmetric] Inr q[symmetric] l wf2 ns2] show ?thesis .
    qed
  qed
qed

lemma one_of_wf:
  assumes "one_of list a = Inr (r, a')" "well_formed a"
  shows "well_formed a'"
proof (cases list)
  case Nil
  with assms show ?thesis by (simp add: one_of_def)
next
  case (Cons c cs)
  show ?thesis
  proof (cases "c = 0")
    case True
    with assms Cons show ?thesis by (simp add: one_of_def)
  next
    case False
    obtain ns a1 where c1: "ch c a = (ns, a1)" by (cases "ch c a")
    with assms(1) Cons False have l: "one_of_loop cs ns a1 = Inr (r, a')"
      by (simp add: one_of_def)
    note w1 = ch_wf[OF assms(2) c1]
    then have "fragment_in_range ns a1" using well_formed_fragment by blast
    with one_of_loop_wf[OF l] w1 show ?thesis by blast
  qed
qed

lemma map_sum_snd_Inr:
  assumes "map_sum id snd x = Inr a'"
  obtains r where "x = Inr (r, a')"
  using assms by (cases x) auto

lemma apply_Ch_wf:
  assumes "well_formed a" "apply_op (Ch c) a = Some (Inr a')"
  shows "well_formed a'"
proof -
  from assms(2) have "snd (ch c a) = a'" by simp
  then have "ch c a = (fst (ch c a), a')" by (metis prod.collapse)
  from ch_wf[OF assms(1) this] show ?thesis by blast
qed

lemma apply_Link_wf:
  assumes "well_formed a" "fragment_in_range lv a" "fragment_in_range rv a"
    "apply_op (Link lv rv) a = Some (Inr a')"
  shows "well_formed a'"
proof -
  from assms(4) have "map_sum id snd (link lv rv a) = Inr a'" by (simp only: apply_op.simps option.inject)
  then obtain r where "link lv rv a = Inr (r, a')" by (rule map_sum_snd_Inr)
  from link_wf[OF assms(1-3) this] show ?thesis by blast
qed

lemma apply_Select_wf:
  assumes "well_formed a" "fragment_in_range lv a" "fragment_in_range rv a"
    "apply_op (Select lv rv) a = Some (Inr a')"
  shows "well_formed a'"
proof -
  from assms(4) have "map_sum id snd (select lv rv a) = Inr a'" by (simp only: apply_op.simps option.inject)
  then obtain r where "select lv rv a = Inr (r, a')" by (rule map_sum_snd_Inr)
  from select_wf[OF assms(1-3) this] show ?thesis by blast
qed

lemma apply_Star_wf:
  assumes "well_formed a" "fragment_in_range v a" "apply_op (Star v) a = Some (Inr a')"
  shows "well_formed a'"
proof -
  from assms(3) have "map_sum id snd (star v a) = Inr a'" by (simp only: apply_op.simps option.inject)
  then obtain r where "star v a = Inr (r, a')" by (rule map_sum_snd_Inr)
  from star_wf[OF assms(1,2) this] show ?thesis by blast
qed

lemma apply_Question_wf:
  assumes "well_formed a" "fragment_in_range v a" "apply_op (Question v) a = Some (Inr a')"
  shows "well_formed a'"
proof -
  from assms(3) have "snd (question v a) = a'" by simp
  then have "question v a = (fst (question v a), a')" by (metis prod.collapse)
  from question_wf[OF assms(1,2) this] show ?thesis by blast
qed

lemma apply_Range_wf:
  assumes "well_formed a" "apply_op (Range s e) a = Some (Inr a')"
  shows "well_formed a'"
proof -
  from assms(2) obtain x where x: "range' s e a = Some x" "map_sum id snd x = Inr a'"
    by (cases "range' s e a") simp_all
  from map_sum_snd_Inr[OF x(2)] obtain r where "x = Inr (r, a')" .
  with x(1) have "range' s e a = Some (Inr (r, a'))" by simp
  from range'_wf[OF this assms(1)] show ?thesis .
qed

lemma apply_One_of_wf:
  assumes "well_formed a" "apply_op (One_of list) a = Some (Inr a')"
  shows "well_formed a'"
proof -
  from assms(2) have "map_sum id snd (one_of list a) = Inr a'" by (simp only: apply_op.simps option.inject)
  then obtain r where "one_of list a = Inr (r, a')" by (rule map_sum_snd_Inr)
  from one_of_wf[OF this assms(1)] show ?thesis .
qed

lemma apply_op_wf:
  assumes wf: "well_formed a" and args: "list_all (\<lambda>r. fragment_in_range r a) (op_fragments p)"
    and ap: "apply_op p a = Some (Inr a')"
  shows "well_formed a'"
proof (cases p)
  case (Ch c)
  from apply_Ch_wf[OF wf ap[unfolded Ch]] show ?thesis .
next
  case (Link lv rv)
  from args have "fragment_in_range lv a" "fragment_in_range rv a" unfolding Link by simp_all
  from apply_Link_wf[OF wf this ap[unfolded Link]] show ?thesis .
next
  case (Select lv rv)
  from args have "fragment_in_range lv a" "fragment_in_range rv a" unfolding Select by simp_all
  from apply_Select_wf[OF wf this ap[unfolded Select]] show ?thesis .
next
  case (Star v)
  from args have "fragment_in_range v a" unfolding Star by simp
  from apply_Star_wf[OF wf this ap[unfolded Star]] show ?thesis .
next
  case (Question v)
  from args have "fragment_in_range v a" unfolding Question by simp
  from apply_Question_wf[OF wf this ap[unfolded Question]] show ?thesis .
next
  case (Range s e)
  from apply_Range_wf[OF wf ap[unfolded Range]] show ?thesis .
next
  case (One_of list)
  from apply_One_of_wf[OF wf ap[unfolded One_of]] show ?thesis .
qed

lemma build_wf:
  assumes "build ops a = Some (Inr a')" "args_in_range ops a" "well_formed a"
  shows "well_formed a'"
  using assms
proof (induction ops arbitrary: a)
  case Nil
  then show ?case by simp
next
  case (Cons p ops)
  from Cons.prems(1) obtain a1 where
    ap: "apply_op p a = Some (Inr a1)" and b: "build ops a1 = Some (Inr a')"
    by (auto split: option.splits sum.splits)
  from Cons.prems(2) ap have args: "list_all (\<lambda>r. fragment_in_range r a) (op_fragments p)"
    and rest: "args_in_range ops a1" by simp_all
  from Cons.IH[OF b rest apply_op_wf[OF Cons.prems(3) args ap]] show ?case .
qed

lemma well_formed_init: "well_formed NFA_init"
  by (simp add: well_formed_def NFA_init_def states_ok_def)

lemma states_ok_targets:
  assumes "states_ok v"
  shows "targets_in_range v \<and> symbol_targets_in_range v"
  using assms unfolding states_ok_def state_ok_def targets_in_range_def
    symbol_targets_in_range_def in_range_def by blast

subsection \<open>Conversion of a built automaton\<close>

lemma acyclic_by_rank:
  fixes f :: "int \<Rightarrow> nat"
  assumes "\<And>i j. (i, j) \<in> R \<Longrightarrow> f j < f i"
  shows "acyclic R"
proof -
  have "f y < f x" if "(x, y) \<in> R\<^sup>+" for x y
    using that
  proof (induction rule: trancl_induct)
    case (base y)
    then show ?case by (rule assms)
  next
    case (step y z)
    from assms[OF step.hyps(2)] step.IH show ?case by simp
  qed
  then show ?thesis unfolding acyclic_def by fastforce
qed

lemma star_a_vec:
  "vec star_a =
    [\<lparr>rule = 97, refs = (1, - 1)\<rparr>, \<lparr>rule = - 2, refs = (2, - 1)\<rparr>,
     \<lparr>rule = - 2, refs = (0, 3)\<rparr>, \<lparr>rule = - 1, refs = (- 1, - 1)\<rparr>]"
  by code_simp

lemma star_a_acyclic: "acyclic (eps_edges (vec star_a))"
proof (rule acyclic_by_rank[where f = "\<lambda>k. if k = 1 then 2 else if k = 2 then 1 else 0"])
  fix i j assume e: "(i, j) \<in> eps_edges (vec star_a)"
  then have "in_range i (vec star_a)" by (simp add: eps_edges_iff)
  then have "i = 0 \<or> i = 1 \<or> i = 2 \<or> i = 3"
    unfolding star_a_vec in_range_def by simp arith
  then show "(if j = 1 then 2 else if j = 2 then 1 else (0 :: nat)) <
             (if i = 1 then 2 else if i = 2 then 1 else 0)"
  proof (elim disjE)
    assume "i = 0"
    with e show ?thesis unfolding star_a_vec by (simp add: eps_edges_iff RULE_EPSILON_def)
  next
    assume "i = 1"
    with e show ?thesis
      unfolding star_a_vec by (auto simp: eps_edges_iff RULE_EPSILON_def REF_UNDEFINED_def)
  next
    assume "i = 2"
    with e show ?thesis
      unfolding star_a_vec by (auto simp: eps_edges_iff RULE_EPSILON_def REF_UNDEFINED_def)
  next
    assume "i = 3"
    with e show ?thesis unfolding star_a_vec by (simp add: eps_edges_iff RULE_EPSILON_def)
  qed
qed

lemma star_star_a_accepts_empty: "nfa_accepts star_star_a []"
proof -
  have v: "vec star_star_a =
    [\<lparr>rule = 97, refs = (1, - 1)\<rparr>, \<lparr>rule = - 2, refs = (2, - 1)\<rparr>,
     \<lparr>rule = - 2, refs = (0, 3)\<rparr>, \<lparr>rule = - 2, refs = (4, - 1)\<rparr>,
     \<lparr>rule = - 2, refs = (2, 5)\<rparr>, \<lparr>rule = - 1, refs = (- 1, - 1)\<rparr>]"
    and n: "nfa star_star_a = \<lparr>start = 4, end' = 5\<rparr>"
    by code_simp+
  have e: "(4, 5) \<in> eps_edges (vec star_star_a)"
    unfolding v by (simp add: eps_edges_iff in_range_def RULE_EPSILON_def REF_UNDEFINED_def)
  have r: "in_range 5 (vec star_star_a)" unfolding v by (simp add: in_range_def)
  have "nfa_run (vec star_star_a) 4 [] 5"
    by (intro nfa_run.eps[OF e] nfa_run.stay[OF r])
  then show ?thesis by (simp add: nfa_accepts_def n)
qed

lemma star_a_accepts_aa: "nfa_accepts star_a [97, 97]"
proof -
  have v: "vec star_a =
    [\<lparr>rule = 97, refs = (1, - 1)\<rparr>, \<lparr>rule = - 2, refs = (2, - 1)\<rparr>,
     \<lparr>rule = - 2, refs = (0, 3)\<rparr>, \<lparr>rule = - 1, refs = (- 1, - 1)\<rparr>]"
    and n: "nfa star_a = \<lparr>start = 2, end' = 3\<rparr>"
    by code_simp+
  have e20: "(2, 0) \<in> eps_edges (vec star_a)" and e23: "(2, 3) \<in> eps_edges (vec star_a)"
    and e12: "(1, 2) \<in> eps_edges (vec star_a)"
    unfolding v by (simp_all add: eps_edges_iff in_range_def RULE_EPSILON_def REF_UNDEFINED_def)
  have s01: "(0, 1) \<in> sym_edges (vec star_a) 97"
    unfolding v by (simp add: sym_edges_iff in_range_def is_symbol_def RULE_EPSILON_def RULE_UNDEFINED_def)
  have r3: "in_range 3 (vec star_a)" unfolding v by (simp add: in_range_def)
  have "nfa_run (vec star_a) 2 [97, 97] 3"
    by (intro nfa_run.eps[OF e20] nfa_run.sym[OF s01] nfa_run.eps[OF e12] nfa_run.eps[OF e23]
        nfa_run.stay[OF r3])
  then show ?thesis by (simp add: nfa_accepts_def n)
qed

text \<open>
  C1, as stated, fails: the conversion does not return a DFA for every automaton the
  operations build. The automaton of \<open>(a*)*\<close>, built by \<^verbatim>\<open>ch\<close>, \<^verbatim>\<open>star\<close>, \<^verbatim>\<open>star\<close>, accepts
  the empty string and has the epsilon cycle \<open>2 \<rightarrow> 3 \<rightarrow> 4 \<rightarrow> 2\<close>; its conversion ends with
  the epsilon-loop error, so no DFA accepts what it accepts.
\<close>

theorem conversion_of_built_automaton_counterexample:
  "build [Ch 97, Star \<lparr>start = 0, end' = 1\<rparr>, Star \<lparr>start = 2, end' = 3\<rparr>] NFA_init =
     Some (Inr star_star_a) \<and>
   nfa_accepts star_star_a [] \<and>
   fst (nfa2dfa star_star_a) = Inl EpsilonInfiniteLoop"
proof -
  have "build [Ch 97, Star \<lparr>start = 0, end' = 1\<rparr>, Star \<lparr>start = 2, end' = 3\<rparr>] NFA_init =
     Some (Inr star_star_a)"
    by code_simp
  moreover have "fst (nfa2dfa star_star_a) = Inl EpsilonInfiniteLoop"
    by code_simp
  ultimately show ?thesis
    using star_star_a_accepts_empty by simp
qed

text \<open>
  C1, amended. Take an automaton built from \<^verbatim>\<open>NFA()\<close> by a sequence of operations of
  the algebra (\<^verbatim>\<open>ch\<close>, \<^verbatim>\<open>link\<close>, \<^verbatim>\<open>select\<close>, \<^verbatim>\<open>star\<close>, \<^verbatim>\<open>question\<close>, \<^verbatim>\<open>range\<close>, \<^verbatim>\<open>one_of\<close>)
  whose fragment arguments are indices of states present at the call, that has at least
  one state and no epsilon cycle. Then \<^verbatim>\<open>nfa2dfa\<close> returns a DFA, and for every input
  string this DFA accepts the string if and only if the automaton accepts it.
\<close>

theorem conversion_of_built_automaton:
  assumes "build ops NFA_init = Some (Inr a)" "args_in_range ops NFA_init" "vec a \<noteq> []"
    "acyclic (eps_edges (vec a))"
  shows "\<exists>dfa. fst (nfa2dfa a) = Inr dfa \<and> (\<forall>w. dfa_accepts dfa w \<longleftrightarrow> nfa_accepts a w)"
proof -
  have wf: "well_formed a"
    using build_wf[OF assms(1,2) well_formed_init] .
  then have t: "targets_in_range (vec a)" "symbol_targets_in_range (vec a)"
    using states_ok_targets unfolding well_formed_def by blast+
  have s0: "in_range (start (nfa a)) (vec a)"
    using well_formed_fragment[OF wf assms(3)] unfolding fragment_in_range_def by simp
  from nfa2dfa_total[OF t assms(4) s0] obtain dfa where d: "fst (nfa2dfa a) = Inr dfa"
    by blast
  then have "\<forall>w. dfa_accepts dfa w \<longleftrightarrow> nfa_accepts a w"
    using nfa2dfa_language by blast
  with d show ?thesis
    by blast
qed

theorem conversion_of_built_automaton_witness:
  "build [Ch 97, Star \<lparr>start = 0, end' = 1\<rparr>] NFA_init = Some (Inr star_a) \<and>
   args_in_range [Ch 97, Star \<lparr>start = 0, end' = 1\<rparr>] NFA_init \<and>
   vec star_a \<noteq> [] \<and> acyclic (eps_edges (vec star_a)) \<and>
   fst (nfa2dfa star_a) =
     Inr [\<lparr>is_end = True, refs = [(97, 1)]\<rparr>, \<lparr>is_end = True, refs = [(97, 1)]\<rparr>] \<and>
   dfa_accepts [\<lparr>is_end = True, refs = [(97, 1)]\<rparr>, \<lparr>is_end = True, refs = [(97, 1)]\<rparr>] [97, 97] \<and>
   nfa_accepts star_a [97, 97]"
proof -
  let ?dfa = "[\<lparr>is_end = True, refs = [(97, 1)]\<rparr>, \<lparr>is_end = True, refs = [(97, 1)]\<rparr>]"
  have h1: "build [Ch 97, Star \<lparr>start = 0, end' = 1\<rparr>] NFA_init = Some (Inr star_a)"
    by code_simp
  have h2: "args_in_range [Ch 97, Star \<lparr>start = 0, end' = 1\<rparr>] NFA_init"
    by code_simp
  have h3: "vec star_a \<noteq> []"
    by code_simp
  have h4: "fst (nfa2dfa star_a) = Inr ?dfa"
    by code_simp
  from conversion_of_built_automaton [OF h1 h2 h3 star_a_acyclic] obtain dfa where
    d: "fst (nfa2dfa star_a) = Inr dfa" "\<forall>w. dfa_accepts dfa w \<longleftrightarrow> nfa_accepts star_a w"
    by blast
  from d(1) h4 have "dfa = ?dfa"
    by simp
  with d(2) star_a_accepts_aa have "dfa_accepts ?dfa [97, 97]"
    by blast
  with h1 h2 h3 h4 star_a_acyclic star_a_accepts_aa show ?thesis
    by blast
qed

section \<open>Members without a symbol\<close>

lemma transitions_from_symbols:
  assumes sc: "subset_construction a = Inr (ds, recs)" and d: "fst (nfa2dfa a) = Inr dfa"
    and q: "q < length ds" and m: "map_of (refs (dfa ! q)) c = Some t"
  shows "\<exists>si \<in> ds ! q. in_range si (vec a) \<and> rule (vec a ! nat si) = c \<and> is_symbol c"
proof -
  from sc d have cd: "construct_dfa (end' (nfa a)) ds recs = Inr dfa"
    by (simp add: nfa2dfa_def)
  from sc obtain ecs where
    ce: "calculate_epsilon_closures (vec a) (replicate (length (vec a)) {}) = Inr ecs"
    and s0: "in_range (start (nfa a)) ecs"
    and l: "dfa_loop (vec a) ecs 0 [ecs ! nat (start (nfa a))] [] = Inr (ds, recs)"
    by (auto simp: subset_construction_def split: sum.splits if_splits)
  have ok: "closures_ok (vec a) ecs" using calculate_closures_ok[OF ce] .
  then have s0': "in_range (start (nfa a)) (vec a)"
    using s0 in_range_length[of ecs "vec a"] unfolding closures_ok_def by blast
  note inv = dfa_loop_spec[OF ok s0' l]
  from construct_dfa_spec[OF cd] q m obtain r where
    r: "r \<in> set recs" "from' r = int q" "rule' r = c" "to' r = t" by blast
  with inv have "rec_ok (vec a) ds r" unfolding dfa_inv_def by blast
  with r have "has_sym (vec a) (ds ! q) c" unfolding rec_ok_def by simp
  then show ?thesis unfolding has_sym_def sym_edges_iff by blast
qed

text \<open>
  C10. A member state whose rule is the undefined sentinel is skipped by the first
  lambda exactly as an epsilon state is: the map of candidate sets comes back unchanged
  and no error is raised. Hence a DFA state all of whose members are such states has no
  recorded transition on any symbol, and the DFA rejects every input that goes on from
  there.
\<close>

theorem undefined_member_skipped:
  "(in_range si vs \<and>
      (rule (vs ! nat si) = RULE_UNDEFINED \<or> rule (vs ! nat si) = RULE_EPSILON) \<longrightarrow>
      collect_closure vs epsilon_closures si ch_closures = Inr ch_closures) \<and>
   (subset_construction a = Inr (dfa_states, dfa_ref_records) \<and> fst (nfa2dfa a) = Inr dfa \<and>
      q < length dfa_states \<and>
      (\<forall>m \<in> dfa_states ! q. rule (vec a ! nat m) = RULE_UNDEFINED \<or>
                               rule (vec a ! nat m) = RULE_EPSILON) \<longrightarrow>
      map_of (refs (dfa ! q)) c = None \<and> dfa_run dfa (int q) (c # w) = None)"
proof (intro conjI impI)
  assume "in_range si vs \<and>
      (rule (vs ! nat si) = RULE_UNDEFINED \<or> rule (vs ! nat si) = RULE_EPSILON)"
  then show "collect_closure vs epsilon_closures si ch_closures = Inr ch_closures"
    by (auto simp: collect_closure_def)
next
  assume h: "subset_construction a = Inr (dfa_states, dfa_ref_records) \<and>
      fst (nfa2dfa a) = Inr dfa \<and> q < length dfa_states \<and>
      (\<forall>m \<in> dfa_states ! q. rule (vec a ! nat m) = RULE_UNDEFINED \<or>
                               rule (vec a ! nat m) = RULE_EPSILON)"
  show n: "map_of (refs (dfa ! q)) c = None"
  proof (cases "map_of (refs (dfa ! q)) c")
    case (Some t)
    from transitions_from_symbols[OF _ _ _ Some] h obtain m where
      "m \<in> dfa_states ! q" "is_symbol (rule (vec a ! nat m))" by blast
    with h show ?thesis by (auto simp: is_symbol_def)
  qed simp
  then show "dfa_run dfa (int q) (c # w) = None" by simp
qed

theorem undefined_member_skipped_witness:
  "collect_closure (vec lit_a) [{0}, {1}] 1 [] = Inr [] \<and>
   subset_construction lit_a = Inr ([{0}, {1}], [\<lparr>from' = 0, rule' = 97, to' = 1\<rparr>]) \<and>
   fst (nfa2dfa lit_a) = Inr [\<lparr>is_end = False, refs = [(97, 1)]\<rparr>, \<lparr>is_end = True, refs = []\<rparr>] \<and>
   rule (vec lit_a ! nat 1) = RULE_UNDEFINED \<and>
   dfa_run [\<lparr>is_end = False, refs = [(97, 1)]\<rparr>, \<lparr>is_end = True, refs = []\<rparr>] (int 1) [97, 97] = None"
proof -
  have h1: "in_range 1 (vec lit_a) \<and>
      (rule (vec lit_a ! nat 1) = RULE_UNDEFINED \<or> rule (vec lit_a ! nat 1) = RULE_EPSILON)"
    by code_simp
  have h2: "subset_construction lit_a = Inr ([{0}, {1}], [\<lparr>from' = 0, rule' = 97, to' = 1\<rparr>])"
    by code_simp
  have h3: "fst (nfa2dfa lit_a) =
      Inr [\<lparr>is_end = False, refs = [(97, 1)]\<rparr>, \<lparr>is_end = True, refs = []\<rparr>]"
    by code_simp
  have h4: "(1 :: nat) < length [{0}, {1 :: int}] \<and>
      (\<forall>m \<in> [{0}, {1}] ! 1. rule (vec lit_a ! nat m) = RULE_UNDEFINED \<or>
                               rule (vec lit_a ! nat m) = RULE_EPSILON)"
    by code_simp
  have h5: "rule (vec lit_a ! nat 1) = RULE_UNDEFINED"
    by code_simp
  from undefined_member_skipped
    [of 1 "vec lit_a" "[{0}, {1}]" "[]" lit_a "[{0}, {1}]" "[\<lparr>from' = 0, rule' = 97, to' = 1\<rparr>]"
        "[\<lparr>is_end = False, refs = [(97, 1)]\<rparr>, \<lparr>is_end = True, refs = []\<rparr>]" 1 97 "[97]"]
    h1 h2 h3 h4 h5
  show ?thesis
    by blast
qed

section \<open>The stored overall fragment\<close>

lemma conversion_uses_stored_fragment:
  assumes sc: "subset_construction a = Inr (ds, recs)" and d: "fst (nfa2dfa a) = Inr dfa"
  shows "ds \<noteq> [] \<and> ds ! 0 = {j. (start (nfa a), j) \<in> (eps_edges (vec a))\<^sup>*} \<and>
         (\<forall>i < length ds. is_end (dfa ! i) \<longleftrightarrow> end' (nfa a) \<in> ds ! i)"
proof -
  from sc d have cd: "construct_dfa (end' (nfa a)) ds recs = Inr dfa"
    by (simp add: nfa2dfa_def)
  from sc obtain ecs where
    ce: "calculate_epsilon_closures (vec a) (replicate (length (vec a)) {}) = Inr ecs"
    and s0: "in_range (start (nfa a)) ecs"
    and l: "dfa_loop (vec a) ecs 0 [ecs ! nat (start (nfa a))] [] = Inr (ds, recs)"
    by (auto simp: subset_construction_def split: sum.splits if_splits)
  have ok: "closures_ok (vec a) ecs" using calculate_closures_ok[OF ce] .
  then have s0': "in_range (start (nfa a)) (vec a)"
    using s0 in_range_length[of ecs "vec a"] unfolding closures_ok_def by blast
  from dfa_loop_spec[OF ok s0' l]
  have "ds \<noteq> []" "ds ! 0 = closure_of (vec a) (start (nfa a))"
    unfolding dfa_inv_def by blast+
  with construct_dfa_spec[OF cd] show ?thesis by (simp add: closure_of_def)
qed

text \<open>
  C9. After a call of \<^verbatim>\<open>ch\<close>, \<^verbatim>\<open>link\<close>, \<^verbatim>\<open>select\<close>, \<^verbatim>\<open>star\<close> or \<^verbatim>\<open>question\<close> the overall
  fragment stored in the automaton is the fragment the call returned. A \<^verbatim>\<open>range\<close> with
  \<open>lo > hi\<close> or a \<^verbatim>\<open>one_of\<close> on an empty list returns the sentinel and leaves the stored
  fragment, like the states, as the previous operation set it. \<^verbatim>\<open>nfa2dfa\<close> converts with
  respect to the stored fragment: the first DFA state is the epsilon closure of its
  start, the accepting flags test its end, and the DFA accepts the inputs that lead from
  its start to its end.
\<close>

theorem stored_fragment:
  "nfa (snd (ch c a)) = fst (ch c a) \<and>
   (link lv rv a = Inr (r1, a1) \<longrightarrow> nfa a1 = r1) \<and>
   (select lv rv a = Inr (r2, a2) \<longrightarrow> nfa a2 = r2) \<and>
   (star v a = Inr (r3, a3) \<longrightarrow> nfa a3 = r3) \<and>
   nfa (snd (question v a)) = fst (question v a) \<and>
   (sint hi < sint lo \<and> range' lo hi a = Some (Inr (r4, a4)) \<longrightarrow>
      r4 = NFASubsetRef_init \<and> nfa a4 = nfa a \<and> vec a4 = vec a) \<and>
   (one_of [] a = Inr (r5, a5) \<longrightarrow> r5 = NFASubsetRef_init \<and> nfa a5 = nfa a \<and> vec a5 = vec a) \<and>
   (subset_construction a = Inr (dfa_states, dfa_ref_records) \<and> fst (nfa2dfa a) = Inr dfa \<longrightarrow>
      dfa_states \<noteq> [] \<and>
      dfa_states ! 0 = {j. (start (nfa a), j) \<in> (eps_edges (vec a))\<^sup>*} \<and>
      (\<forall>i < length dfa_states. is_end (dfa ! i) \<longleftrightarrow> end' (nfa a) \<in> dfa_states ! i) \<and>
      (dfa_accepts dfa w \<longleftrightarrow> nfa_run (vec a) (start (nfa a)) w (end' (nfa a))))"
proof (intro conjI impI)
  show "nfa (snd (ch c a)) = fst (ch c a)"
    by (simp add: ch_def Let_def)
  show "nfa (snd (question v a)) = fst (question v a)"
    by (simp add: question_def Let_def)
next
  assume "link lv rv a = Inr (r1, a1)"
  then show "nfa a1 = r1"
    by (auto simp: link_def Let_def split: if_splits)
next
  assume "select lv rv a = Inr (r2, a2)"
  then show "nfa a2 = r2"
    by (auto simp: select_def Let_def split: if_splits)
next
  assume "star v a = Inr (r3, a3)"
  then show "nfa a3 = r3"
    by (auto simp: star_def Let_def split: if_splits)
next
  assume "sint hi < sint lo \<and> range' lo hi a = Some (Inr (r4, a4))"
  then have "r4 = NFASubsetRef_init \<and> a4 = a"
    by (auto simp: range'_def)
  then show "r4 = NFASubsetRef_init" "nfa a4 = nfa a" "vec a4 = vec a"
    by simp_all
next
  assume "one_of [] a = Inr (r5, a5)"
  then have "r5 = NFASubsetRef_init \<and> a5 = a"
    by (auto simp: one_of_def)
  then show "r5 = NFASubsetRef_init" "nfa a5 = nfa a" "vec a5 = vec a"
    by simp_all
next
  assume h: "subset_construction a = Inr (dfa_states, dfa_ref_records) \<and> fst (nfa2dfa a) = Inr dfa"
  then have c: "dfa_states \<noteq> [] \<and>
      dfa_states ! 0 = {j. (start (nfa a), j) \<in> (eps_edges (vec a))\<^sup>*} \<and>
      (\<forall>i < length dfa_states. is_end (dfa ! i) \<longleftrightarrow> end' (nfa a) \<in> dfa_states ! i)"
    using conversion_uses_stored_fragment by blast
  then show "dfa_states \<noteq> []"
    "dfa_states ! 0 = {j. (start (nfa a), j) \<in> (eps_edges (vec a))\<^sup>*}"
    "\<forall>i < length dfa_states. is_end (dfa ! i) \<longleftrightarrow> end' (nfa a) \<in> dfa_states ! i"
    by blast+
  show "dfa_accepts dfa w \<longleftrightarrow> nfa_run (vec a) (start (nfa a)) w (end' (nfa a))"
    using nfa2dfa_language[of a dfa w] h by (simp add: nfa_accepts_def)
qed

theorem stored_fragment_witness:
  "link \<lparr>start = 0, end' = 1\<rparr> \<lparr>start = 0, end' = 1\<rparr> lit_a =
     Inr (\<lparr>start = 0, end' = 1\<rparr>,
          snd (projr (link \<lparr>start = 0, end' = 1\<rparr> \<lparr>start = 0, end' = 1\<rparr> lit_a))) \<and>
   nfa (snd (projr (link \<lparr>start = 0, end' = 1\<rparr> \<lparr>start = 0, end' = 1\<rparr> lit_a))) =
     \<lparr>start = 0, end' = 1\<rparr> \<and>
   select \<lparr>start = 0, end' = 1\<rparr> \<lparr>start = 0, end' = 1\<rparr> lit_a =
     Inr (\<lparr>start = 2, end' = 3\<rparr>,
          snd (projr (select \<lparr>start = 0, end' = 1\<rparr> \<lparr>start = 0, end' = 1\<rparr> lit_a))) \<and>
   nfa (snd (projr (select \<lparr>start = 0, end' = 1\<rparr> \<lparr>start = 0, end' = 1\<rparr> lit_a))) =
     \<lparr>start = 2, end' = 3\<rparr> \<and>
   star \<lparr>start = 0, end' = 1\<rparr> lit_a = Inr (\<lparr>start = 2, end' = 3\<rparr>, star_a) \<and>
   nfa star_a = \<lparr>start = 2, end' = 3\<rparr> \<and>
   sint (97 :: cchar) < sint (99 :: cchar) \<and>
   range' 99 97 lit_a = Some (Inr (NFASubsetRef_init, lit_a)) \<and>
   one_of [] lit_a = Inr (NFASubsetRef_init, lit_a) \<and>
   subset_construction lit_a = Inr ([{0}, {1}], [\<lparr>from' = 0, rule' = 97, to' = 1\<rparr>]) \<and>
   fst (nfa2dfa lit_a) = Inr [\<lparr>is_end = False, refs = [(97, 1)]\<rparr>, \<lparr>is_end = True, refs = []\<rparr>] \<and>
   [{0}, {1}] ! 0 = {j. (start (nfa lit_a), j) \<in> (eps_edges (vec lit_a))\<^sup>*} \<and>
   nfa_run (vec lit_a) (start (nfa lit_a)) [97] (end' (nfa lit_a))"
proof -
  let ?f = "\<lparr>start = 0, end' = 1\<rparr>"
  let ?dfa = "[\<lparr>is_end = False, refs = [(97, 1)]\<rparr>, \<lparr>is_end = True, refs = []\<rparr>]"
  have h1: "link ?f ?f lit_a = Inr (\<lparr>start = 0, end' = 1\<rparr>, snd (projr (link ?f ?f lit_a)))"
    by code_simp
  have h2: "select ?f ?f lit_a = Inr (\<lparr>start = 2, end' = 3\<rparr>, snd (projr (select ?f ?f lit_a)))"
    by code_simp
  have h3: "star ?f lit_a = Inr (\<lparr>start = 2, end' = 3\<rparr>, star_a)"
    by code_simp
  have h4: "sint (97 :: cchar) < sint (99 :: cchar) \<and>
      range' 99 97 lit_a = Some (Inr (NFASubsetRef_init, lit_a))"
    by code_simp
  have h5: "one_of [] lit_a = Inr (NFASubsetRef_init, lit_a)"
    by code_simp
  have h6: "subset_construction lit_a = Inr ([{0}, {1}], [\<lparr>from' = 0, rule' = 97, to' = 1\<rparr>]) \<and>
      fst (nfa2dfa lit_a) = Inr ?dfa"
    by code_simp
  have h7: "dfa_accepts ?dfa [97]"
    by code_simp
  from stored_fragment
    [where a = lit_a and lv = ?f and rv = ?f and v = ?f
       and ?r1.0 = "\<lparr>start = 0, end' = 1\<rparr>" and ?a1.0 = "snd (projr (link ?f ?f lit_a))"
       and ?r2.0 = "\<lparr>start = 2, end' = 3\<rparr>" and ?a2.0 = "snd (projr (select ?f ?f lit_a))"
       and ?r3.0 = "\<lparr>start = 2, end' = 3\<rparr>" and ?a3.0 = star_a
       and hi = 97 and lo = 99 and ?r4.0 = NFASubsetRef_init and ?a4.0 = lit_a
       and ?r5.0 = NFASubsetRef_init and ?a5.0 = lit_a
       and dfa_states = "[{0}, {1}]" and dfa_ref_records = "[\<lparr>from' = 0, rule' = 97, to' = 1\<rparr>]"
       and dfa = ?dfa and w = "[97]"]
    h1 h2 h3 h4 h5 h6 h7
  show ?thesis
    by blast
qed

section \<open>Conversion after an empty range\<close>

text \<open>
  C4. The claim has \<^verbatim>\<open>range(lo, hi)\<close> with \<open>lo > hi\<close> yield the empty fragment, and its
  conversion produce a DFA that accepts no input. In the source this path of \<^verbatim>\<open>range\<close>
  returns the sentinel without storing it as the overall fragment, where the paths
  \<open>lo = hi\<close> and \<open>lo < hi\<close> store what they return, and \<^verbatim>\<open>nfa2dfa\<close> converts the stored
  fragment. On a fresh automaton, \<^verbatim>\<open>range('c', 'a')\<close> leaves no state and the sentinel
  as stored fragment: the conversion reads the closure table at \<open>REF_UNDEFINED\<close>, out of
  range, and no DFA is produced. The path \<open>lo = hi\<close> on the same automaton stores the
  fragment it returns.
\<close>

theorem empty_range_on_fresh_automaton:
  "range' 99 97 NFA_init = Some (Inr (NFASubsetRef_init, NFA_init)) \<and>
   vec NFA_init = [] \<and> nfa NFA_init = \<lparr>start = - 1, end' = - 1\<rparr> \<and>
   fst (nfa2dfa NFA_init) = Inl OutOfRange \<and>
   range' 97 97 NFA_init = Some (Inr (\<lparr>start = 0, end' = 1\<rparr>, lit_a)) \<and>
   nfa lit_a = \<lparr>start = 0, end' = 1\<rparr>"
  by code_simp

end
